theory Spec2Isabelle
  imports Complex_Main "HOL-Library.Word"
begin

unbundle bit_operations_syntax

section \<open>The slicing tool of src/pages/SlicerPage.tsx\<close>

text \<open>
  The theory embeds the two self-contained algorithms of \<^verbatim>\<open>src/pages/SlicerPage.tsx\<close>:
  the grid geometry (\<^verbatim>\<open>clampValue\<close>, \<^verbatim>\<open>buildEvenSplits\<close>, \<^verbatim>\<open>buildStops\<close>,
  \<^verbatim>\<open>buildFractions\<close>, \<^verbatim>\<open>getMinGap\<close>, \<^verbatim>\<open>updateCustomRows\<close>, \<^verbatim>\<open>updateRowSplit\<close>,
  the loops of \<^verbatim>\<open>performSlice\<close>) and the ZIP writer (\<^verbatim>\<open>getCrcTable\<close>, \<^verbatim>\<open>crc32\<close>,
  \<^verbatim>\<open>toDosDate\<close>, \<^verbatim>\<open>buildZipBlob\<close>).

  Conventions of the embedding.
  \<^item> A JavaScript \<^verbatim>\<open>number\<close> that holds a fraction, a pixel position or a grid count is
    an exact rational (\<^typ>\<open>rat\<close>): the rounding of IEEE doubles is not modelled, and the
    literals \<^verbatim>\<open>0.05\<close> and \<^verbatim>\<open>0.6\<close> are \<open>1/20\<close> and \<open>6/10\<close>. Non-finite numbers are
    modelled where the source tests for them (\<^verbatim>\<open>Number.isFinite\<close> in
    \<^verbatim>\<open>updateCustomRows\<close>) and where a statement is about every array of numbers
    (\<^verbatim>\<open>clampValue\<close>, \<^verbatim>\<open>buildStops\<close> and \<^verbatim>\<open>buildFractions\<close> are embedded a second time
    on the type \<open>jsNumber\<close>, suffixed \<open>_js\<close>); elsewhere the numbers are finite, as the ones
    the page computes are (even splits, and clamped ratios of finite pointer coordinates).
  \<^item> The operands of \<^verbatim>\<open>&\<close>, \<^verbatim>\<open>^\<close>, \<^verbatim>\<open>|\<close>, \<^verbatim>\<open><<\<close> and \<^verbatim>\<open>>>>\<close> are 32-bit words, the
    elements of a \<^verbatim>\<open>Uint8Array\<close> are 8-bit words, array lengths and byte offsets are
    natural numbers, and the \<^verbatim>\<open>DataView\<close> setters keep the low 16 or 32 bits of what
    they are given.
  \<^item> Mutable variables of a loop become arguments of a recursive function; the
    module-level \<^verbatim>\<open>crcTable\<close> cache and the clock read by \<^verbatim>\<open>new Date()\<close> become
    explicit arguments.
  \<^item> A read beyond the end of an array gives \<^verbatim>\<open>undefined\<close> in the source and \<^verbatim>\<open>NaN\<close>
    in the arithmetic that follows; the model returns \<open>None\<close> there.
\<close>

subsection \<open>Grid geometry: breakpoints, stops, fractions\<close>

definition MAX_CUSTOM_GRID :: rat where
  "MAX_CUSTOM_GRID = 8"

text \<open>\<^verbatim>\<open>Math.min(Math.max(value, min), max)\<close>\<close>

definition clampValue :: "rat \<Rightarrow> rat \<Rightarrow> rat \<Rightarrow> rat" where
  "clampValue v lo hi = min (max v lo) hi"

text \<open>
  \<^verbatim>\<open>Array.from({ length: count - 1 }, (_, i) => (i + 1) / count)\<close>. The length of the
  array is \<^verbatim>\<open>count - 1\<close> truncated to an integer; it is positive on this branch.
\<close>

definition buildEvenSplits :: "rat \<Rightarrow> rat list" where
  "buildEvenSplits count =
     (if count \<le> 1 then []
      else map (\<lambda>i. (of_nat i + 1) / count) [0..<nat \<lfloor>count - 1\<rfloor>])"

text \<open>\<^verbatim>\<open>[0, ...splits.slice(0, count - 1).map((value) => clampValue(value, 0, 1)), 1]\<close>\<close>

definition buildStops :: "rat \<Rightarrow> rat list \<Rightarrow> rat list" where
  "buildStops count splits =
     (if count \<le> 1 then [0, 1]
      else (let trimmed = map (\<lambda>v. clampValue v 0 1) (take (nat \<lfloor>count - 1\<rfloor>) splits)
            in [0] @ trimmed @ [1]))"

text \<open>
  \<^verbatim>\<open>stops.slice(1).map((stop, index) => Math.max(0, stop - stops[index]))\<close>: the callback
  sees element \<open>index + 1\<close> of \<open>stops\<close> together with \<open>index\<close>, so \<open>stops[index]\<close> is
  always in range.
\<close>

definition buildFractions :: "rat list \<Rightarrow> rat list" where
  "buildFractions stops =
     map (\<lambda>(stop, index). max 0 (stop - stops ! index))
         (zip (drop 1 stops) [0..<length stops - 1])"

text \<open>\<^verbatim>\<open>Math.min(0.05, 0.6 / Math.max(count, 1))\<close>\<close>

definition getMinGap :: "rat \<Rightarrow> rat" where
  "getMinGap count = min (1 / 20) ((6 / 10) / max count 1)"

text \<open>
  The argument of \<^verbatim>\<open>updateCustomRows\<close> and \<^verbatim>\<open>updateCustomCols\<close> is any JavaScript number
  (the caller passes the result of \<^verbatim>\<open>Number.parseInt\<close>, an integer or \<^verbatim>\<open>NaN\<close>).
\<close>

datatype jsNumber = Finite rat | NaN | PosInfinity | NegInfinity

text \<open>
  \<^verbatim>\<open>updateCustomRows\<close>: the pair returned is what the function stores with
  \<^verbatim>\<open>setCustomRows\<close> and \<^verbatim>\<open>setCustomRowSplits\<close>.
\<close>

definition updateCustomRows :: "jsNumber \<Rightarrow> rat \<times> rat list" where
  "updateCustomRows v =
     (let safeValue = (case v of Finite r \<Rightarrow> r | _ \<Rightarrow> 1);
          next = clampValue safeValue 1 MAX_CUSTOM_GRID
      in (next, buildEvenSplits next))"

text \<open>\<^verbatim>\<open>updateCustomCols\<close> has the same body and stores to the column state.\<close>

definition updateCustomCols :: "jsNumber \<Rightarrow> rat \<times> rat list" where
  "updateCustomCols v =
     (let safeValue = (case v of Finite r \<Rightarrow> r | _ \<Rightarrow> 1);
          next = clampValue safeValue 1 MAX_CUSTOM_GRID
      in (next, buildEvenSplits next))"

text \<open>
  \<^verbatim>\<open>updateRowSplit(index, value)\<close> maps the stored breakpoints \<open>prev\<close> to the new ones;
  \<open>customRows\<close> is the count of the closure. With \<open>index\<close> beyond the array the source
  reads \<^verbatim>\<open>undefined\<close> as a neighbour and stores \<^verbatim>\<open>NaN\<close>: the result is \<open>None\<close>.
\<close>

definition updateRowSplit :: "rat \<Rightarrow> nat \<Rightarrow> rat \<Rightarrow> rat list \<Rightarrow> rat list option" where
  "updateRowSplit customRows idx v prev =
     (if length prev = 0 then Some prev
      else if length prev \<le> idx then None
      else (let minGap = getMinGap customRows;
                lowerBound = (if idx = 0 then 0 else prev ! (idx - 1));
                upperBound = (if idx = length prev - 1 then 1 else prev ! (idx + 1))
            in Some (prev[idx := clampValue v (lowerBound + minGap) (upperBound - minGap)])))"

definition updateColSplit :: "rat \<Rightarrow> nat \<Rightarrow> rat \<Rightarrow> rat list \<Rightarrow> rat list option" where
  "updateColSplit customCols idx v prev =
     (if length prev = 0 then Some prev
      else if length prev \<le> idx then None
      else (let minGap = getMinGap customCols;
                lowerBound = (if idx = 0 then 0 else prev ! (idx - 1));
                upperBound = (if idx = length prev - 1 then 1 else prev ! (idx + 1))
            in Some (prev[idx := clampValue v (lowerBound + minGap) (upperBound - minGap)])))"

subsection \<open>Stops and fractions on every JavaScript number\<close>

text \<open>
  \<^verbatim>\<open>clampValue\<close>, \<^verbatim>\<open>buildStops\<close> and \<^verbatim>\<open>buildFractions\<close> accept any \<^verbatim>\<open>number\<close> and any
  \<^verbatim>\<open>number[]\<close>. The definitions of this subsection embed the same three functions on
  \<^typ>\<open>jsNumber\<close>, with \<^verbatim>\<open>NaN\<close> and the two infinities as \<^verbatim>\<open>Math.max\<close>, \<^verbatim>\<open>Math.min\<close>,
  \<^verbatim>\<open>-\<close>, \<^verbatim>\<open><=\<close> and \<^verbatim>\<open>Array.prototype.slice\<close> treat them; on finite numbers they are
  the definitions above. Finite values stay exact rationals (a difference of two finite
  numbers is finite), and the two zeros are one.
\<close>

text \<open>\<^verbatim>\<open>a <= b\<close>: false as soon as one side is \<^verbatim>\<open>NaN\<close>.\<close>

fun jsLe :: "jsNumber \<Rightarrow> jsNumber \<Rightarrow> bool" where
  "jsLe NaN b = False"
| "jsLe a NaN = False"
| "jsLe NegInfinity b = True"
| "jsLe a PosInfinity = True"
| "jsLe (Finite a) (Finite b) = (a \<le> b)"
| "jsLe PosInfinity b = False"
| "jsLe a NegInfinity = False"

text \<open>\<^verbatim>\<open>Math.max(a, b)\<close> and \<^verbatim>\<open>Math.min(a, b)\<close>: \<^verbatim>\<open>NaN\<close> as soon as one argument is.\<close>

definition Math_max :: "jsNumber \<Rightarrow> jsNumber \<Rightarrow> jsNumber" where
  "Math_max a b = (if a = NaN \<or> b = NaN then NaN else if jsLe a b then b else a)"

definition Math_min :: "jsNumber \<Rightarrow> jsNumber \<Rightarrow> jsNumber" where
  "Math_min a b = (if a = NaN \<or> b = NaN then NaN else if jsLe a b then a else b)"

text \<open>\<^verbatim>\<open>a - b\<close>: \<^verbatim>\<open>NaN\<close> for a \<^verbatim>\<open>NaN\<close> operand and for two infinities of the same sign.\<close>

fun jsSub :: "jsNumber \<Rightarrow> jsNumber \<Rightarrow> jsNumber" where
  "jsSub NaN b = NaN"
| "jsSub a NaN = NaN"
| "jsSub (Finite a) (Finite b) = Finite (a - b)"
| "jsSub PosInfinity PosInfinity = NaN"
| "jsSub NegInfinity NegInfinity = NaN"
| "jsSub PosInfinity b = PosInfinity"
| "jsSub NegInfinity b = NegInfinity"
| "jsSub (Finite a) PosInfinity = NegInfinity"
| "jsSub (Finite a) NegInfinity = PosInfinity"

text \<open>
  \<^verbatim>\<open>xs.slice(0, end)\<close>: the end is truncated to an integer (\<^verbatim>\<open>NaN\<close> counts as 0), a
  negative end counts from the end of the array, and the result stops at the bounds of
  the array.
\<close>

definition slice0 :: "'a list \<Rightarrow> jsNumber \<Rightarrow> 'a list" where
  "slice0 xs e =
     (case e of
        Finite r \<Rightarrow>
          (let relativeEnd = (if r < 0 then \<lceil>r\<rceil> else \<lfloor>r\<rfloor>)
           in if relativeEnd < 0 then take (nat (int (length xs) + relativeEnd)) xs
              else take (nat relativeEnd) xs)
      | NaN \<Rightarrow> []
      | PosInfinity \<Rightarrow> xs
      | NegInfinity \<Rightarrow> [])"

text \<open>\<^verbatim>\<open>Math.min(Math.max(value, min), max)\<close>\<close>

definition clampValue_js :: "jsNumber \<Rightarrow> jsNumber \<Rightarrow> jsNumber \<Rightarrow> jsNumber" where
  "clampValue_js v lo hi = Math_min (Math_max v lo) hi"

text \<open>
  \<^verbatim>\<open>if (count <= 1) return [0, 1]\<close>, then
  \<^verbatim>\<open>[0, ...splits.slice(0, count - 1).map((value) => clampValue(value, 0, 1)), 1]\<close>
\<close>

definition buildStops_js :: "jsNumber \<Rightarrow> jsNumber list \<Rightarrow> jsNumber list" where
  "buildStops_js count splits =
     (if jsLe count (Finite 1) then [Finite 0, Finite 1]
      else (let trimmed = map (\<lambda>v. clampValue_js v (Finite 0) (Finite 1))
                              (slice0 splits (jsSub count (Finite 1)))
            in [Finite 0] @ trimmed @ [Finite 1]))"

text \<open>\<^verbatim>\<open>stops.slice(1).map((stop, index) => Math.max(0, stop - stops[index]))\<close>\<close>

definition buildFractions_js :: "jsNumber list \<Rightarrow> jsNumber list" where
  "buildFractions_js stops =
     map (\<lambda>(stop, index). Math_max (Finite 0) (jsSub stop (stops ! index)))
         (zip (drop 1 stops) [0..<length stops - 1])"

subsection \<open>The slicing loops of performSlice\<close>

text \<open>\<^verbatim>\<open>Math.round\<close> rounds to the nearest integer, a half towards plus infinity.\<close>

definition Math_round :: "rat \<Rightarrow> int" where
  "Math_round v = \<lfloor>v + 1 / 2\<rfloor>"

text \<open>
  The source rectangle of one \<^verbatim>\<open>ctx.drawImage\<close> call, with the row and column stored in
  the \<^verbatim>\<open>SliceItem\<close>: \<open>sliceX\<close>, \<open>sliceY\<close> are \<^verbatim>\<open>startX\<close>, \<^verbatim>\<open>startY\<close>, and \<open>sliceW\<close>,
  \<open>sliceH\<close> are \<^verbatim>\<open>sliceWidth\<close>, \<^verbatim>\<open>sliceHeight\<close>.
\<close>

record SliceRect =
  sliceRow :: nat
  sliceCol :: nat
  sliceX :: int
  sliceY :: int
  sliceW :: int
  sliceH :: int

text \<open>The inner loop over the columns of one row; \<open>x\<close> is its accumulator.\<close>

function colLoop ::
  "nat \<Rightarrow> rat list \<Rightarrow> nat \<Rightarrow> nat \<Rightarrow> int \<Rightarrow> int \<Rightarrow> nat \<Rightarrow> rat \<Rightarrow> SliceRect list" where
  "colLoop gridColCount colSizes imgWidth row startY sliceHeight col x =
     (if col < gridColCount then
        (let startX = Math_round x;
             nextX = (if col = gridColCount - 1 then int imgWidth
                      else Math_round (x + colSizes ! col));
             sliceWidth = max 1 (nextX - startX)
         in \<lparr>sliceRow = row, sliceCol = col, sliceX = startX, sliceY = startY,
              sliceW = sliceWidth, sliceH = sliceHeight\<rparr>
            # colLoop gridColCount colSizes imgWidth row startY sliceHeight (Suc col)
                (of_int nextX))
      else [])"
  by pat_completeness auto

termination
  by (relation "measure (\<lambda>(gridColCount, colSizes, imgWidth, row, startY, sliceHeight, col, x).
        gridColCount - col)") auto

text \<open>The outer loop over the rows; \<open>y\<close> is its accumulator.\<close>

function rowLoop ::
  "nat \<Rightarrow> nat \<Rightarrow> rat list \<Rightarrow> rat list \<Rightarrow> nat \<Rightarrow> nat \<Rightarrow> nat \<Rightarrow> rat \<Rightarrow> SliceRect list" where
  "rowLoop gridRowCount gridColCount rowSizes colSizes imgWidth imgHeight row y =
     (if row < gridRowCount then
        (let startY = Math_round y;
             nextY = (if row = gridRowCount - 1 then int imgHeight
                      else Math_round (y + rowSizes ! row));
             sliceHeight = max 1 (nextY - startY)
         in colLoop gridColCount colSizes imgWidth row startY sliceHeight 0 0
            @ rowLoop gridRowCount gridColCount rowSizes colSizes imgWidth imgHeight (Suc row)
                (of_int nextY))
      else [])"
  by pat_completeness auto

termination
  by (relation "measure (\<lambda>(gridRowCount, gridColCount, rowSizes, colSizes, imgWidth,
        imgHeight, row, y). gridRowCount - row)") auto

text \<open>
  The body of \<^verbatim>\<open>img.onload\<close> in \<^verbatim>\<open>performSlice\<close>, for an image of \<open>imgWidth\<close> by
  \<open>imgHeight\<close> pixels and the grid counts and fractions of the closure. The counts are
  natural numbers: they are constants of \<^verbatim>\<open>SLICE_MODES\<close> or come from
  \<^verbatim>\<open>updateCustomRows\<close> applied to a \<^verbatim>\<open>parseInt\<close> result. The rectangles are listed in
  the order of \<^verbatim>\<open>index = row * gridColCount + col\<close>. The loops read \<^verbatim>\<open>rowSizes[row]\<close> for
  every row but the last and \<^verbatim>\<open>colSizes[col]\<close> for every column but the last; when one
  of these reads is beyond the array the geometry is \<^verbatim>\<open>NaN\<close> and the result \<open>None\<close>.
\<close>

definition performSlice ::
  "nat \<Rightarrow> nat \<Rightarrow> nat \<Rightarrow> nat \<Rightarrow> rat list \<Rightarrow> rat list \<Rightarrow> SliceRect list option" where
  "performSlice imgWidth imgHeight gridRowCount gridColCount rowFractions colFractions =
     (let rowSizes = map (\<lambda>fraction. fraction * of_nat imgHeight) rowFractions;
          colSizes = map (\<lambda>fraction. fraction * of_nat imgWidth) colFractions
      in if length rowSizes < gridRowCount - 1
            \<or> (0 < gridRowCount \<and> length colSizes < gridColCount - 1)
         then None
         else Some (rowLoop gridRowCount gridColCount rowSizes colSizes imgWidth imgHeight 0 0))"

subsection \<open>CRC-32\<close>

type_synonym u32 = "32 word"

type_synonym byte = "8 word"

text \<open>\<^verbatim>\<open>(c & 1) ? (0xedb88320 ^ (c >>> 1)) : (c >>> 1)\<close>\<close>

definition crcBit :: "u32 \<Rightarrow> u32" where
  "crcBit c = (if c AND 1 \<noteq> 0 then 0xedb88320 XOR drop_bit 1 c else drop_bit 1 c)"

text \<open>\<^verbatim>\<open>for (let k = 0; k < 8; k++)\<close>\<close>

function crcInner :: "nat \<Rightarrow> u32 \<Rightarrow> u32" where
  "crcInner k c = (if k < 8 then crcInner (Suc k) (crcBit c) else c)"
  by pat_completeness auto

termination
  by (relation "measure (\<lambda>(k, c). 8 - k)") auto

text \<open>\<^verbatim>\<open>for (let i = 0; i < 256; i++)\<close>, storing \<^verbatim>\<open>table[i] = c >>> 0\<close>\<close>

function crcOuter :: "nat \<Rightarrow> u32 list \<Rightarrow> u32 list" where
  "crcOuter i table =
     (if i < 256 then crcOuter (Suc i) (table[i := crcInner 0 (of_nat i)]) else table)"
  by pat_completeness auto

termination
  by (relation "measure (\<lambda>(i, table). 256 - i)") auto

text \<open>
  \<^verbatim>\<open>getCrcTable\<close> takes the module-level cache \<^verbatim>\<open>crcTable\<close> (\<open>None\<close> for \<^verbatim>\<open>null\<close>) and
  returns the table with the cache it leaves behind.
\<close>

definition getCrcTable :: "u32 list option \<Rightarrow> u32 list \<times> u32 list option" where
  "getCrcTable crcTable =
     (case crcTable of
        Some t \<Rightarrow> (t, crcTable)
      | None \<Rightarrow> (let table = crcOuter 0 (replicate 256 0) in (table, Some table)))"

text \<open>\<^verbatim>\<open>crc = (crc >>> 8) ^ table[(crc ^ data[i]) & 0xff]\<close> for every index of the buffer\<close>

function crcLoop :: "u32 list \<Rightarrow> byte list \<Rightarrow> nat \<Rightarrow> u32 \<Rightarrow> u32" where
  "crcLoop table buf i crc =
     (if i < length buf
      then crcLoop table buf (Suc i)
             (drop_bit 8 crc XOR table ! unat ((crc XOR ucast (buf ! i)) AND 0xff))
      else crc)"
  by pat_completeness auto

termination
  by (relation "measure (\<lambda>(table, buf, i, crc). length buf - i)") auto

definition crc32 :: "byte list \<Rightarrow> u32 list option \<Rightarrow> u32 \<times> u32 list option" where
  "crc32 buf crcTable =
     (let (table, cache) = getCrcTable crcTable
      in (crcLoop table buf 0 0xffffffff XOR 0xffffffff, cache))"

subsection \<open>The ZIP writer\<close>

text \<open>
  A \<^verbatim>\<open>ZipFileEntry\<close>. The name is held as the bytes that \<^verbatim>\<open>TextEncoder.encode\<close> gives
  for it (UTF-8; one byte per character for the ASCII names the page uses).
\<close>

record ZipFileEntry =
  name :: string
  data :: "byte list"

text \<open>
  What \<^verbatim>\<open>toDosDate\<close> reads from its \<^verbatim>\<open>Date\<close>: the results of \<^verbatim>\<open>getFullYear()\<close>,
  \<^verbatim>\<open>getMonth()\<close>, \<^verbatim>\<open>getDate()\<close>, \<^verbatim>\<open>getHours()\<close>, \<^verbatim>\<open>getMinutes()\<close> and \<^verbatim>\<open>getSeconds()\<close>.
\<close>

record Date =
  getFullYear :: int
  getMonth :: nat
  getDate :: nat
  getHours :: nat
  getMinutes :: nat
  getSeconds :: nat

record DosDate =
  dosTime :: u32
  dosDate :: u32

definition toDosDate :: "Date \<Rightarrow> DosDate" where
  "toDosDate d =
     (let year = max 1980 (getFullYear d);
          month = getMonth d + 1;
          day = getDate d;
          hours = getHours d;
          minutes = getMinutes d;
          seconds = getSeconds d div 2
      in \<lparr>dosTime = push_bit 11 (of_nat hours) OR push_bit 5 (of_nat minutes) OR of_nat seconds,
          dosDate = push_bit 9 (of_int (year - 1980)) OR push_bit 5 (of_nat month) OR of_nat day\<rparr>)"

text \<open>
  \<^verbatim>\<open>DataView.setUint16(byteOffset, value, true)\<close> and
  \<^verbatim>\<open>DataView.setUint32(byteOffset, value, true)\<close>: little-endian, and the value is reduced
  modulo \<open>2^16\<close> or \<open>2^32\<close> (each byte is the value shifted right and cut to 8 bits).
\<close>

definition setUint16 :: "nat \<Rightarrow> nat \<Rightarrow> byte list \<Rightarrow> byte list" where
  "setUint16 byteOffset v buf =
     buf[byteOffset := of_nat v, byteOffset + 1 := of_nat (v div 2 ^ 8)]"

definition setUint32 :: "nat \<Rightarrow> nat \<Rightarrow> byte list \<Rightarrow> byte list" where
  "setUint32 byteOffset v buf =
     buf[byteOffset := of_nat v, byteOffset + 1 := of_nat (v div 2 ^ 8),
         byteOffset + 2 := of_nat (v div 2 ^ 16), byteOffset + 3 := of_nat (v div 2 ^ 24)]"

text \<open>A sequence of writes through one \<^verbatim>\<open>DataView\<close>, first to last.\<close>

definition writes :: "(byte list \<Rightarrow> byte list) list \<Rightarrow> byte list \<Rightarrow> byte list" where
  "writes ws buf = fold (\<lambda>w b. w b) ws buf"

text \<open>\<^verbatim>\<open>localHeader\<close>: a \<^verbatim>\<open>new Uint8Array(30)\<close> and the eleven writes of the loop body.\<close>

definition localHeader :: "DosDate \<Rightarrow> u32 \<Rightarrow> nat \<Rightarrow> nat \<Rightarrow> byte list" where
  "localHeader now crc sz nameLength =
     writes
       [setUint32 0 0x04034b50,
        setUint16 4 20,
        setUint16 6 0,
        setUint16 8 0,
        setUint16 10 (unat (dosTime now)),
        setUint16 12 (unat (dosDate now)),
        setUint32 14 (unat crc),
        setUint32 18 sz,
        setUint32 22 sz,
        setUint16 26 nameLength,
        setUint16 28 0]
       (replicate 30 0)"

text \<open>\<^verbatim>\<open>centralHeader\<close>: a \<^verbatim>\<open>new Uint8Array(46)\<close> and its seventeen writes.\<close>

definition centralHeader :: "DosDate \<Rightarrow> u32 \<Rightarrow> nat \<Rightarrow> nat \<Rightarrow> nat \<Rightarrow> byte list" where
  "centralHeader now crc sz nameLength off =
     writes
       [setUint32 0 0x02014b50,
        setUint16 4 20,
        setUint16 6 20,
        setUint16 8 0,
        setUint16 10 0,
        setUint16 12 (unat (dosTime now)),
        setUint16 14 (unat (dosDate now)),
        setUint32 16 (unat crc),
        setUint32 20 sz,
        setUint32 24 sz,
        setUint16 28 nameLength,
        setUint16 30 0,
        setUint16 32 0,
        setUint16 34 0,
        setUint16 36 0,
        setUint32 38 0,
        setUint32 42 off]
       (replicate 46 0)"

text \<open>\<^verbatim>\<open>endRecord\<close>: a \<^verbatim>\<open>new Uint8Array(22)\<close> and its eight writes.\<close>

definition endRecord :: "nat \<Rightarrow> nat \<Rightarrow> nat \<Rightarrow> byte list" where
  "endRecord filesLength centralSize off =
     writes
       [setUint32 0 0x06054b50,
        setUint16 4 0,
        setUint16 6 0,
        setUint16 8 filesLength,
        setUint16 10 filesLength,
        setUint32 12 centralSize,
        setUint32 16 off,
        setUint16 20 0]
       (replicate 22 0)"

text \<open>
  The variables that \<^verbatim>\<open>files.forEach\<close> updates: the arrays \<^verbatim>\<open>parts\<close> and
  \<^verbatim>\<open>centralParts\<close>, the running \<^verbatim>\<open>offset\<close>, and the module's \<^verbatim>\<open>crcTable\<close> cache.
\<close>

record ZipState =
  parts :: "byte list list"
  centralParts :: "byte list list"
  offset :: nat
  crcTable :: "u32 list option"

text \<open>One call of the \<^verbatim>\<open>forEach\<close> callback (\<open>sz\<close> is the source's \<^verbatim>\<open>size\<close>).\<close>

definition zipEntry :: "DosDate \<Rightarrow> ZipFileEntry \<Rightarrow> ZipState \<Rightarrow> ZipState" where
  "zipEntry now file st =
     (let nameBytes = map of_char (name file);
          sz = length (data file);
          (crc, cache) = crc32 (data file) (crcTable st);
          lh = localHeader now crc sz (length nameBytes);
          ch = centralHeader now crc sz (length nameBytes) (offset st)
      in \<lparr>parts = parts st @ [lh, nameBytes, data file],
          centralParts = centralParts st @ [ch, nameBytes],
          offset = offset st + length lh + length nameBytes + sz,
          crcTable = cache\<rparr>)"

text \<open>
  The state after \<^verbatim>\<open>files.forEach\<close>, from empty arrays and offset 0; \<open>cache\<close> is the
  \<^verbatim>\<open>crcTable\<close> variable at the call and \<open>clock\<close> what \<^verbatim>\<open>new Date()\<close> returns.
\<close>

definition zipEntries :: "ZipFileEntry list \<Rightarrow> Date \<Rightarrow> u32 list option \<Rightarrow> ZipState" where
  "zipEntries files clock cache =
     fold (zipEntry (toDosDate clock)) files
       \<lparr>parts = [], centralParts = [], offset = 0, crcTable = cache\<rparr>"

text \<open>
  \<^verbatim>\<open>buildZipBlob\<close>: the bytes of the \<^verbatim>\<open>Blob\<close> (the concatenation of
  \<^verbatim>\<open>[...parts, ...centralParts, endRecord]\<close>) and the cache left behind.
\<close>

definition buildZipBlob ::
  "ZipFileEntry list \<Rightarrow> Date \<Rightarrow> u32 list option \<Rightarrow> byte list \<times> u32 list option" where
  "buildZipBlob files clock cache =
     (let st = zipEntries files clock cache;
          centralSize = foldl (\<lambda>sum part. sum + length part) 0 (centralParts st);
          er = endRecord (length files) centralSize (offset st)
      in (concat (parts st @ centralParts st @ [er]), crcTable st))"

section \<open>Notions used in the statements\<close>

subsection \<open>The CRC-32 table and update step as described\<close>

text \<open>Entry \<open>i\<close> of the table as the description words it: eight steps from \<open>c = i\<close>.\<close>

definition crcEntry :: "nat \<Rightarrow> u32" where
  "crcEntry i = (crcBit ^^ 8) (of_nat i)"

text \<open>One byte folded through a table: \<^verbatim>\<open>table[(c ^ byte) & 0xFF] ^ (c >>> 8)\<close>.\<close>

definition crcUpdate :: "u32 list \<Rightarrow> byte \<Rightarrow> u32 \<Rightarrow> u32" where
  "crcUpdate table b c = table ! unat ((c XOR ucast b) AND 0xff) XOR drop_bit 8 c"

subsection \<open>Breakpoints and sequences of updates\<close>

text \<open>
  The breakpoints \<open>splits\<close> of an axis keep the gap \<open>g\<close>: in \<open>0, splits, 1\<close> every
  element is at least \<open>g\<close> above the one before it.
\<close>

definition minGapOk :: "rat \<Rightarrow> rat list \<Rightarrow> bool" where
  "minGapOk g splits = successively (\<lambda>a b. a + g \<le> b) ([0] @ splits @ [1])"

text \<open>
  A finite sequence of \<^verbatim>\<open>updateRowSplit(index, value)\<close> calls on one axis, each working on
  the breakpoints the previous call stored.
\<close>

fun updateSplits :: "rat \<Rightarrow> (nat \<times> rat) list \<Rightarrow> rat list \<Rightarrow> rat list option" where
  "updateSplits count [] splits = Some splits"
| "updateSplits count ((idx, v) # ups) splits =
     (case updateRowSplit count idx v splits of
        None \<Rightarrow> None
      | Some next \<Rightarrow> updateSplits count ups next)"

subsection \<open>One axis of the slicing loops\<close>

text \<open>
  Both loops of \<^verbatim>\<open>performSlice\<close> run the same computation along their axis, and the
  column loop does not depend on the row. \<open>axisCuts\<close> is that computation on its own: the
  list of \<open>(start, extent)\<close> pairs, from index \<open>i\<close> and accumulator \<open>acc\<close> on.
\<close>

function axisCuts :: "nat \<Rightarrow> rat list \<Rightarrow> nat \<Rightarrow> nat \<Rightarrow> rat \<Rightarrow> (int \<times> int) list" where
  "axisCuts count sizes len i acc =
     (if i < count then
        (let start = Math_round acc;
             nxt = (if i = count - 1 then int len else Math_round (acc + sizes ! i));
             extent = max 1 (nxt - start)
         in (start, extent) # axisCuts count sizes len (Suc i) (of_int nxt))
      else [])"
  by pat_completeness auto
termination
  by (relation "measure (\<lambda>(count, sizes, len, i, acc). count - i)") auto

text \<open>The rectangle of a row with cut \<open>ycut\<close> and a column \<open>(col, cut)\<close>.\<close>

definition mkRect :: "nat \<Rightarrow> int \<times> int \<Rightarrow> nat \<times> int \<times> int \<Rightarrow> SliceRect" where
  "mkRect row ycut xcut =
     \<lparr>sliceRow = row, sliceCol = fst xcut, sliceX = fst (snd xcut), sliceY = fst ycut,
      sliceW = snd (snd xcut), sliceH = snd ycut\<rparr>"

text \<open>
  The boundaries along one axis in closed form: boundary 0 is 0, and boundary \<open>i + 1\<close> is
  the image's extent for the last slice and otherwise the rounding of boundary \<open>i\<close> plus
  the size of slice \<open>i\<close>.
\<close>

fun boundary :: "nat \<Rightarrow> rat list \<Rightarrow> nat \<Rightarrow> nat \<Rightarrow> int" where
  "boundary count sizes len 0 = 0"
| "boundary count sizes len (Suc i) =
     (if i = count - 1 then int len
      else Math_round (of_int (boundary count sizes len i) + sizes ! i))"

text \<open>Slice \<open>i\<close> of an axis: its start and its extent, at least one pixel.\<close>

definition axisCut :: "nat \<Rightarrow> rat list \<Rightarrow> nat \<Rightarrow> nat \<Rightarrow> int \<times> int" where
  "axisCut count sizes len i =
     (boundary count sizes len i,
      max 1 (boundary count sizes len (Suc i) - boundary count sizes len i))"

text \<open>
  The procedure as the description of the component words it, for comparison: the top of a
  row is \<open>round(y)\<close>, its bottom \<open>round(y + size)\<close> (the image's extent in the last row),
  and \<open>y\<close> advances by the unrounded \<open>size\<close>. The result lists \<open>(top, bottom)\<close>.
\<close>

function unroundedCuts :: "nat \<Rightarrow> rat list \<Rightarrow> nat \<Rightarrow> nat \<Rightarrow> rat \<Rightarrow> (int \<times> int) list" where
  "unroundedCuts count sizes len i acc =
     (if i < count then
        (let top = Math_round acc;
             bottom = (if i = count - 1 then int len else Math_round (acc + sizes ! i))
         in (top, bottom) # unroundedCuts count sizes len (Suc i) (acc + sizes ! i))
      else [])"
  by pat_completeness auto
termination
  by (relation "measure (\<lambda>(count, sizes, len, i, acc). count - i)") auto

subsection \<open>Partitions of the image\<close>

text \<open>Pixel \<open>(px, py)\<close> lies in the rectangle \<open>r\<close>.\<close>

definition covers :: "SliceRect \<Rightarrow> int \<Rightarrow> int \<Rightarrow> bool" where
  "covers r px py =
     (sliceX r \<le> px \<and> px < sliceX r + sliceW r \<and> sliceY r \<le> py \<and> py < sliceY r + sliceH r)"

text \<open>The number of rectangles of the list that the pixel lies in.\<close>

definition coverCount :: "SliceRect list \<Rightarrow> int \<Rightarrow> int \<Rightarrow> nat" where
  "coverCount rs px py = length (filter (\<lambda>r. covers r px py) rs)"

text \<open>The rectangle has at least one pixel and none outside a \<open>w\<close> by \<open>h\<close> image.\<close>

definition insideImage :: "nat \<Rightarrow> nat \<Rightarrow> SliceRect \<Rightarrow> bool" where
  "insideImage w h r =
     (0 \<le> sliceX r \<and> 1 \<le> sliceW r \<and> sliceX r + sliceW r \<le> int w
      \<and> 0 \<le> sliceY r \<and> 1 \<le> sliceH r \<and> sliceY r + sliceH r \<le> int h)"

text \<open>
  The rectangles partition the pixels \<open>[0, w) \<times> [0, h)\<close>: every rectangle lies inside the
  image, and every pixel of the image lies in exactly one rectangle of the list.
\<close>

definition exactPartition :: "nat \<Rightarrow> nat \<Rightarrow> SliceRect list \<Rightarrow> bool" where
  "exactPartition w h rs =
     (list_all (insideImage w h) rs
      \<and> (\<forall>px \<in> {0..<int w}. \<forall>py \<in> {0..<int h}. coverCount rs px py = 1))"

text \<open>Position \<open>p\<close> lies in slice \<open>i\<close> of an axis with boundaries \<open>b\<close>.\<close>

definition inSlice :: "(nat \<Rightarrow> int) \<Rightarrow> int \<Rightarrow> nat \<Rightarrow> bool" where
  "inSlice b p i = (b i \<le> p \<and> p < b (Suc i))"

text \<open>The sizes of an axis are large enough for the rounding not to collapse a slice.\<close>

definition roomy :: "nat \<Rightarrow> rat list \<Rightarrow> nat \<Rightarrow> bool" where
  "roomy count sizes len =
     (0 < count \<and> length sizes = count \<and> sum_list sizes = of_nat len
      \<and> list_all (\<lambda>s. (of_nat count + 1) / 2 \<le> s) sizes)"

subsection \<open>Reading the archive back\<close>

text \<open>The little-endian bytes of a 16-bit and of a 32-bit field holding \<open>v\<close>.\<close>

definition u16le :: "nat \<Rightarrow> byte list" where
  "u16le v = [of_nat v, of_nat (v div 2 ^ 8)]"

definition u32le :: "nat \<Rightarrow> byte list" where
  "u32le v = [of_nat v, of_nat (v div 2 ^ 8), of_nat (v div 2 ^ 16), of_nat (v div 2 ^ 24)]"

text \<open>The number that little-endian bytes stand for, as a ZIP reader decodes a field.\<close>

fun leNat :: "byte list \<Rightarrow> nat" where
  "leNat [] = 0"
| "leNat (b # bs) = unat b + 256 * leNat bs"

text \<open>
  The states of the module's \<^verbatim>\<open>crcTable\<close> variable: \<^verbatim>\<open>null\<close>, or the table that
  \<^verbatim>\<open>getCrcTable\<close> stored in it (nothing else assigns the variable).
\<close>

definition cacheOk :: "u32 list option \<Rightarrow> bool" where
  "cacheOk cache = (cache = None \<or> cache = Some (fst (getCrcTable None)))"

text \<open>The checksum of a buffer, whatever the state of the cache.\<close>

definition crcOf :: "byte list \<Rightarrow> u32" where
  "crcOf buf = fst (crc32 buf None)"

text \<open>
  The bytes an entry takes in the local region, its local header's offset as the running
  sum of these, and the offsets of all entries from a starting offset.
\<close>

definition entrySize :: "ZipFileEntry \<Rightarrow> nat" where
  "entrySize file = 30 + length (name file) + length (data file)"

definition localOffset :: "ZipFileEntry list \<Rightarrow> nat \<Rightarrow> nat" where
  "localOffset files i = sum_list (map entrySize (take i files))"

fun offsetsFrom :: "nat \<Rightarrow> ZipFileEntry list \<Rightarrow> nat list" where
  "offsetsFrom off [] = []"
| "offsetsFrom off (file # files) = off # offsetsFrom (off + entrySize file) files"

text \<open>
  The local entry of a file (local header, name bytes, content bytes) and its central
  directory record (central header, name bytes) for a local-header offset \<open>off\<close>.
\<close>

definition localEntry :: "DosDate \<Rightarrow> ZipFileEntry \<Rightarrow> byte list" where
  "localEntry now file =
     localHeader now (crcOf (data file)) (length (data file)) (length (name file))
     @ map of_char (name file) @ data file"

definition centralRecord :: "DosDate \<Rightarrow> ZipFileEntry \<Rightarrow> nat \<Rightarrow> byte list" where
  "centralRecord now file off =
     centralHeader now (crcOf (data file)) (length (data file)) (length (name file)) off
     @ map of_char (name file)"

text \<open>
  Reading an archive back: the position of the central header of entry \<open>i\<close> (after the
  local region and the records of the entries before it), the number in its
  local-header-offset field (4 bytes at 42), and the number in the field of \<open>width\<close>
  bytes at \<open>pos\<close> of the end-of-central-directory record (the last 22 bytes).
\<close>

definition centralPos :: "ZipFileEntry list \<Rightarrow> nat \<Rightarrow> nat" where
  "centralPos files i =
     sum_list (map entrySize files)
     + sum_list (map (\<lambda>file. 46 + length (name file)) (take i files))"

definition centralOffsetField :: "byte list \<Rightarrow> ZipFileEntry list \<Rightarrow> nat \<Rightarrow> nat" where
  "centralOffsetField blob files i = leNat (take 4 (drop (centralPos files i + 42) blob))"

definition eocdField :: "byte list \<Rightarrow> nat \<Rightarrow> nat \<Rightarrow> nat" where
  "eocdField blob pos width = leNat (take width (drop (length blob - 22 + pos) blob))"

section \<open>CRC-32: the loops against the table-driven description\<close>

declare crcInner.simps [simp del]
declare crcOuter.simps [simp del]
declare crcLoop.simps [simp del]
declare colLoop.simps [simp del]
declare rowLoop.simps [simp del]
declare axisCuts.simps [simp del]
declare unroundedCuts.simps [simp del]

lemma crcInner_funpow: "k \<le> 8 \<Longrightarrow> crcInner k c = (crcBit ^^ (8 - k)) c"
proof (induction k c rule: crcInner.induct)
  case (1 k c)
  show ?case
  proof (cases "k < 8")
    case True
    then have "8 - k = Suc (8 - Suc k)" by simp
    with 1 True show ?thesis
      by (subst crcInner.simps) (simp add: funpow_swap1)
  next
    case False
    with 1 show ?thesis by (subst crcInner.simps) simp
  qed
qed

lemma crcOuter_fill:
  "i \<le> 256 \<Longrightarrow> length t = 256 \<Longrightarrow> crcOuter i t = take i t @ map crcEntry [i..<256]"
proof (induction i t rule: crcOuter.induct)
  case (1 i t)
  show ?case
  proof (cases "i < 256")
    case True
    have "crcOuter i t = crcOuter (Suc i) (t[i := crcEntry i])"
      using True by (subst crcOuter.simps) (simp add: crcEntry_def crcInner_funpow)
    also have "\<dots> = take (Suc i) (t[i := crcEntry i]) @ map crcEntry [Suc i..<256]"
      using 1 True by (simp add: crcEntry_def crcInner_funpow)
    also have "take (Suc i) (t[i := crcEntry i]) = take i t @ [crcEntry i]"
      using True 1(3) by (simp add: take_Suc_conv_app_nth)
    finally show ?thesis using True by (simp add: upt_conv_Cons)
  next
    case False
    with 1 show ?thesis by (subst crcOuter.simps) simp
  qed
qed

lemma crcOuter_table: "crcOuter 0 (replicate 256 0) = map crcEntry [0..<256]"
  using crcOuter_fill [of 0 "replicate 256 0"] by simp

lemma getCrcTable_None:
  "getCrcTable None = (map crcEntry [0..<256], Some (map crcEntry [0..<256]))"
  by (simp add: getCrcTable_def crcOuter_table Let_def del: upt_Suc)

lemma getCrcTable_Some: "getCrcTable (Some t) = (t, Some t)"
  by (simp add: getCrcTable_def)

lemma crcLoop_fold:
  "i \<le> length buf \<Longrightarrow> crcLoop table buf i crc = fold (crcUpdate table) (drop i buf) crc"
proof (induction table buf i crc rule: crcLoop.induct)
  case (1 table buf i crc)
  show ?case
  proof (cases "i < length buf")
    case True
    then have "drop i buf = buf ! i # drop (Suc i) buf"
      by (simp add: Cons_nth_drop_Suc)
    moreover have "drop_bit 8 crc XOR table ! unat ((crc XOR ucast (buf ! i)) AND 0xff)
        = crcUpdate table (buf ! i) crc"
      by (simp add: crcUpdate_def xor.commute)
    ultimately show ?thesis using 1 True
      by (subst crcLoop.simps) simp
  next
    case False
    with 1 show ?thesis by (subst crcLoop.simps) simp
  qed
qed

lemma crc_index_bound: "unat ((c XOR ucast (b::byte)) AND (0xff::u32)) < 256"
proof -
  have "unat ((c XOR ucast b) AND (0xff::u32)) \<le> unat (0xff::u32)"
    by (rule word_and_le1 [THEN word_le_nat_alt [THEN iffD1]])
  then show ?thesis by simp
qed

lemma crcUpdate_entry:
  "crcUpdate (map crcEntry [0..<256]) b c =
     crcEntry (unat ((c XOR ucast b) AND 0xff)) XOR drop_bit 8 c"
  using crc_index_bound [of c b] by (simp add: crcUpdate_def del: upt_Suc)

lemma crcBit8:
  "(crcBit ^^ 8) c = crcBit (crcBit (crcBit (crcBit (crcBit (crcBit (crcBit (crcBit c)))))))"
  by (simp add: eval_nat_numeral funpow_swap1)

lemma crc32_fold:
  "fst (crc32 buf None) =
     fold (crcUpdate (map crcEntry [0..<256])) buf 0xffffffff XOR 0xffffffff"
  by (simp add: crc32_def getCrcTable_None crcLoop_fold del: upt_Suc)

lemma crc32_cached:
  "crc32 buf (Some (map crcEntry [0..<256])) = crc32 buf None"
  by (simp add: crc32_def getCrcTable_None getCrcTable_Some del: upt_Suc)

lemma crc32_check_fold:
  "fold (crcUpdate (map crcEntry [0..<256])) (map of_char ''123456789'') 0xffffffff
     XOR 0xffffffff = 0xCBF43926"
  by (simp add: crcUpdate_entry crcEntry_def crcBit8 crcBit_def del: upt_Suc)

text \<open>
  C1. The CRC-32 of the source is the table-driven algorithm for the reflected polynomial
  \<open>0xEDB88320\<close>: the table that \<^verbatim>\<open>getCrcTable\<close> builds has 256 entries, entry \<open>i\<close> being
  eight applications of \<open>c \<mapsto> (c & 1) ? (0xEDB88320 ^ (c >>> 1)) : (c >>> 1)\<close> to \<open>i\<close>;
  \<^verbatim>\<open>crc32\<close> seeds \<open>0xFFFFFFFF\<close>, folds every byte through the table with
  \<open>c \<mapsto> table[(c ^ byte) & 0xFF] ^ (c >>> 8)\<close> and returns the result XORed with
  \<open>0xFFFFFFFF\<close>, with or without a cached table; the checksum of the ASCII bytes of
  "123456789" is \<open>0xCBF43926\<close> and that of the empty buffer is \<open>0\<close>.
\<close>

theorem crc32_standard:
  "fst (getCrcTable None) = map (\<lambda>i. (crcBit ^^ 8) (of_nat i)) [0..<256]
   \<and> length (fst (getCrcTable None)) = 256
   \<and> fst (crc32 buf None) =
       fold (\<lambda>b c. fst (getCrcTable None) ! unat ((c XOR ucast b) AND 0xff) XOR drop_bit 8 c)
         buf 0xffffffff XOR 0xffffffff
   \<and> crc32 buf (snd (getCrcTable None)) = crc32 buf None
   \<and> fst (crc32 (map of_char ''123456789'') None) = 0xCBF43926
   \<and> fst (crc32 [] None) = 0x00000000"
proof -
  have tab: "fst (getCrcTable None) = map (\<lambda>i. (crcBit ^^ 8) (of_nat i)) [0..<256]"
    unfolding getCrcTable_None fst_conv
    by (rule map_cong) (simp_all add: crcEntry_def)
  have len: "length (fst (getCrcTable None)) = 256"
    by (simp add: getCrcTable_None del: upt_Suc)
  have upd: "crcUpdate (map crcEntry [0..<256]) =
      (\<lambda>b c. fst (getCrcTable None) ! unat ((c XOR ucast b) AND 0xff) XOR drop_bit 8 c)"
    by (intro ext) (simp add: crcUpdate_def getCrcTable_None del: upt_Suc)
  have fold: "fst (crc32 buf None) =
       fold (\<lambda>b c. fst (getCrcTable None) ! unat ((c XOR ucast b) AND 0xff) XOR drop_bit 8 c)
         buf 0xffffffff XOR 0xffffffff"
    unfolding crc32_fold upd ..
  have cached: "crc32 buf (snd (getCrcTable None)) = crc32 buf None"
    by (simp add: getCrcTable_None crc32_cached del: upt_Suc)
  have check: "fst (crc32 (map of_char ''123456789'') None) = 0xCBF43926"
    unfolding crc32_fold by (rule crc32_check_fold)
  have empty: "fst (crc32 [] None) = 0x00000000"
    by (simp add: crc32_fold)
  from tab len fold cached check empty show ?thesis by blast
qed

section \<open>Stops and fractions\<close>

lemma clampValue_range: "lo \<le> hi \<Longrightarrow> lo \<le> clampValue v lo hi \<and> clampValue v lo hi \<le> hi"
  by (simp add: clampValue_def)

lemma buildStops_shape:
  "buildStops count splits =
     0 # map (\<lambda>v. clampValue v 0 1)
           (take (nat \<lfloor>count - 1\<rfloor>) (if count \<le> 1 then [] else splits)) @ [1]"
  by (simp add: buildStops_def)

lemma buildStops_range: "v \<in> set (buildStops count splits) \<Longrightarrow> 0 \<le> v \<and> v \<le> 1"
  by (auto simp: buildStops_def clampValue_def split: if_splits)

lemma buildFractions_nonneg: "f \<in> set (buildFractions stops) \<Longrightarrow> 0 \<le> f"
  by (auto simp: buildFractions_def)

lemma buildFractions_length: "length (buildFractions stops) = length stops - 1"
  by (simp add: buildFractions_def)

lemma buildFractions_nth:
  "i < length stops - 1 \<Longrightarrow> buildFractions stops ! i = max 0 (stops ! Suc i - stops ! i)"
  by (simp add: buildFractions_def)

subsection \<open>With NaN and the infinities\<close>

lemma clampValue_js_unit:
  "clampValue_js v (Finite 0) (Finite 1) =
     (case v of Finite r \<Rightarrow> Finite (clampValue r 0 1) | NaN \<Rightarrow> NaN
      | PosInfinity \<Rightarrow> Finite 1 | NegInfinity \<Rightarrow> Finite 0)"
  by (cases v) (auto simp: clampValue_js_def Math_max_def Math_min_def clampValue_def)

lemma clampValue_js_range:
  "v \<noteq> NaN \<Longrightarrow> jsLe (Finite 0) (clampValue_js v (Finite 0) (Finite 1))
     \<and> jsLe (clampValue_js v (Finite 0) (Finite 1)) (Finite 1)"
  by (cases v) (simp_all add: clampValue_js_unit clampValue_def)

lemma buildStops_js_shape:
  "\<exists>used. set used \<subseteq> set splits \<and> buildStops_js count splits =
     [Finite 0] @ map (\<lambda>v. clampValue_js v (Finite 0) (Finite 1)) used @ [Finite 1]"
proof (cases "jsLe count (Finite 1)")
  case True
  then have "buildStops_js count splits =
     [Finite 0] @ map (\<lambda>v. clampValue_js v (Finite 0) (Finite 1)) [] @ [Finite 1]"
    by (simp add: buildStops_js_def)
  then show ?thesis by (intro exI [of _ "[]"]) simp
next
  case False
  have "set (slice0 splits e) \<subseteq> set splits" for e
    by (cases e) (auto simp: slice0_def Let_def dest: in_set_takeD)
  with False show ?thesis
    by (intro exI [of _ "slice0 splits (jsSub count (Finite 1))"])
       (simp add: buildStops_js_def)
qed

lemma buildStops_js_Finite:
  "buildStops_js (Finite c) splits =
     [Finite 0] @ map (\<lambda>v. clampValue_js v (Finite 0) (Finite 1))
                   (take (nat \<lfloor>c - 1\<rfloor>) (if c \<le> 1 then [] else splits)) @ [Finite 1]"
  by (simp add: buildStops_js_def slice0_def Let_def)

lemma buildStops_js_range:
  assumes "NaN \<notin> set splits" and "s \<in> set (buildStops_js count splits)"
  shows "jsLe (Finite 0) s \<and> jsLe s (Finite 1)"
proof -
  from buildStops_js_shape [of splits count] obtain used where
    used: "set used \<subseteq> set splits"
    and stops: "buildStops_js count splits =
      [Finite 0] @ map (\<lambda>v. clampValue_js v (Finite 0) (Finite 1)) used @ [Finite 1]"
    by blast
  from assms(2) consider "s = Finite 0" | "s = Finite 1"
    | v where "v \<in> set used" "s = clampValue_js v (Finite 0) (Finite 1)"
    by (auto simp: stops)
  then show ?thesis
  proof cases
    case 3
    with used assms(1) have "v \<noteq> NaN" by auto
    with 3 show ?thesis by (simp add: clampValue_js_range)
  qed simp_all
qed

lemma buildFractions_js_length: "length (buildFractions_js stops) = length stops - 1"
  by (simp add: buildFractions_js_def)

lemma buildFractions_js_nth:
  "i < length stops - 1 \<Longrightarrow>
     buildFractions_js stops ! i = Math_max (Finite 0) (jsSub (stops ! Suc i) (stops ! i))"
  by (simp add: buildFractions_js_def)

lemma Math_max_0: "Math_max (Finite 0) d = NaN \<or> jsLe (Finite 0) (Math_max (Finite 0) d)"
  by (cases d) (simp_all add: Math_max_def)

lemma buildFractions_js_NaN_or_nonneg:
  "f \<in> set (buildFractions_js stops) \<Longrightarrow> f = NaN \<or> jsLe (Finite 0) f"
  using Math_max_0 by (auto simp: buildFractions_js_def)

lemma unit_difference:
  assumes "jsLe (Finite 0) a \<and> jsLe a (Finite 1)" and "jsLe (Finite 0) b \<and> jsLe b (Finite 1)"
  shows "jsLe (Finite 0) (Math_max (Finite 0) (jsSub b a))
    \<and> jsLe (Math_max (Finite 0) (jsSub b a)) (Finite 1)"
proof -
  from assms obtain x y where "a = Finite x" "b = Finite y" "0 \<le> x" "x \<le> 1" "0 \<le> y" "y \<le> 1"
    by (cases a; cases b) simp_all
  then show ?thesis by (simp add: Math_max_def)
qed

lemma buildFractions_js_unit:
  assumes stops: "\<forall>s \<in> set stops. jsLe (Finite 0) s \<and> jsLe s (Finite 1)"
    and f: "f \<in> set (buildFractions_js stops)"
  shows "jsLe (Finite 0) f \<and> jsLe f (Finite 1)"
proof -
  from f obtain i where i: "i < length stops - 1" "f = buildFractions_js stops ! i"
    by (auto simp: in_set_conv_nth buildFractions_js_length)
  then have "stops ! i \<in> set stops" "stops ! Suc i \<in> set stops" by simp_all
  with stops have "jsLe (Finite 0) (stops ! i) \<and> jsLe (stops ! i) (Finite 1)"
    "jsLe (Finite 0) (stops ! Suc i) \<and> jsLe (stops ! Suc i) (Finite 1)"
    by blast+
  from unit_difference [OF this] i show ?thesis by (simp add: buildFractions_js_nth)
qed

lemma buildStops_js_finite:
  "buildStops_js (Finite c) (map Finite rs) = map Finite (buildStops c rs)"
  by (simp add: buildStops_js_Finite buildStops_def clampValue_js_unit take_map)

lemma buildFractions_js_finite:
  "buildFractions_js (map Finite rs) = map Finite (buildFractions rs)"
  by (rule nth_equalityI)
     (simp_all add: buildFractions_js_length buildFractions_length buildFractions_js_nth
       buildFractions_nth Math_max_def)

lemma buildStops_js_example:
  "buildStops_js (Finite 3) [Finite (9 / 10), NegInfinity, PosInfinity, Finite 7] =
     [Finite 0, Finite (9 / 10), Finite 0, Finite 1]"
  by (simp add: buildStops_js_Finite clampValue_js_unit clampValue_def)

lemma buildFractions_js_example:
  "buildFractions_js [Finite 0, Finite (9 / 10), Finite 0, Finite 1] =
     [Finite (9 / 10), Finite 0, Finite 1]"
  by (simp add: buildFractions_js_def upt_conv_Cons Math_max_def)

lemma buildStops_js_NaN_example:
  "buildStops_js (Finite 3) [NaN, Finite (1 / 2)] = [Finite 0, NaN, Finite (1 / 2), Finite 1]"
  by (simp add: buildStops_js_Finite clampValue_js_unit clampValue_def)

lemma buildFractions_js_NaN_example:
  "buildFractions_js [Finite 0, NaN, Finite (1 / 2), Finite 1] = [NaN, NaN, Finite (1 / 2)]"
  by (simp add: buildFractions_js_def upt_conv_Cons Math_max_def)

text \<open>
  C10 (as the code has it). \<^verbatim>\<open>buildStops\<close> and \<^verbatim>\<open>buildFractions\<close> are total on every
  count and every array of numbers, whatever its length, order and values, \<^verbatim>\<open>NaN\<close> and
  the infinities included: the stops start with 0 and end with 1, and between them stand
  the first \<open>count - 1\<close> splits, each passed through \<^verbatim>\<open>clampValue(value, 0, 1)\<close> (none of
  them when \<open>count \<le> 1\<close>, when the count is \<^verbatim>\<open>NaN\<close> or minus infinity; all of them when
  it is plus infinity). The clamp of \<^verbatim>\<open>NaN\<close> is \<^verbatim>\<open>NaN\<close>; the clamp of every other number
  lies in \<open>[0, 1]\<close>. So for an array of splits without \<^verbatim>\<open>NaN\<close> every stop lies in
  \<open>[0, 1]\<close>. \<^verbatim>\<open>buildFractions\<close> returns one fraction per pair of neighbouring stops,
  \<^verbatim>\<open>Math.max(0, difference)\<close>, which is \<^verbatim>\<open>NaN\<close> or not negative; the fractions of the
  stops built from splits without \<^verbatim>\<open>NaN\<close> lie in \<open>[0, 1]\<close>, and on finite numbers both
  functions are the ones over the rationals, whose fractions are never negative. No
  division occurs in either function.
\<close>

theorem stops_fractions_without_NaN:
  "hd (buildStops_js count splits) = Finite 0
   \<and> last (buildStops_js count splits) = Finite 1
   \<and> buildStops_js (Finite c) splits =
       [Finite 0] @ map (\<lambda>v. clampValue_js v (Finite 0) (Finite 1))
                     (take (nat \<lfloor>c - 1\<rfloor>) (if c \<le> 1 then [] else splits)) @ [Finite 1]
   \<and> buildStops_js PosInfinity splits =
       [Finite 0] @ map (\<lambda>v. clampValue_js v (Finite 0) (Finite 1)) splits @ [Finite 1]
   \<and> buildStops_js NaN splits = [Finite 0, Finite 1]
   \<and> buildStops_js NegInfinity splits = [Finite 0, Finite 1]
   \<and> clampValue_js NaN (Finite 0) (Finite 1) = NaN
   \<and> (v \<noteq> NaN \<longrightarrow> jsLe (Finite 0) (clampValue_js v (Finite 0) (Finite 1))
                  \<and> jsLe (clampValue_js v (Finite 0) (Finite 1)) (Finite 1))
   \<and> (NaN \<notin> set splits \<longrightarrow>
        (\<forall>s \<in> set (buildStops_js count splits). jsLe (Finite 0) s \<and> jsLe s (Finite 1)))
   \<and> length (buildFractions_js stops) = length stops - 1
   \<and> (\<forall>i < length stops - 1.
        buildFractions_js stops ! i = Math_max (Finite 0) (jsSub (stops ! Suc i) (stops ! i)))
   \<and> (\<forall>f \<in> set (buildFractions_js stops). f = NaN \<or> jsLe (Finite 0) f)
   \<and> (NaN \<notin> set splits \<longrightarrow>
        (\<forall>f \<in> set (buildFractions_js (buildStops_js count splits)).
           jsLe (Finite 0) f \<and> jsLe f (Finite 1)))
   \<and> buildStops_js (Finite c) (map Finite rs) = map Finite (buildStops c rs)
   \<and> buildFractions_js (map Finite rs) = map Finite (buildFractions rs)
   \<and> (\<forall>f \<in> set (buildFractions rs). 0 \<le> f)"
proof -
  from buildStops_js_shape [of splits count] obtain used where
    stops: "buildStops_js count splits =
      [Finite 0] @ map (\<lambda>v. clampValue_js v (Finite 0) (Finite 1)) used @ [Finite 1]"
    by blast
  have ends: "hd (buildStops_js count splits) = Finite 0"
    "last (buildStops_js count splits) = Finite 1"
    by (simp_all add: stops)
  have counts: "buildStops_js PosInfinity splits =
       [Finite 0] @ map (\<lambda>v. clampValue_js v (Finite 0) (Finite 1)) splits @ [Finite 1]"
    "buildStops_js NaN splits = [Finite 0, Finite 1]"
    "buildStops_js NegInfinity splits = [Finite 0, Finite 1]"
    by (simp_all add: buildStops_js_def slice0_def)
  have clamp: "clampValue_js NaN (Finite 0) (Finite 1) = NaN"
    by (simp add: clampValue_js_unit)
  have range: "\<forall>s \<in> set (buildStops_js count splits). jsLe (Finite 0) s \<and> jsLe s (Finite 1)"
    if "NaN \<notin> set splits"
    using that buildStops_js_range by blast
  have composed: "\<forall>f \<in> set (buildFractions_js (buildStops_js count splits)).
      jsLe (Finite 0) f \<and> jsLe f (Finite 1)"
    if "NaN \<notin> set splits"
    using buildFractions_js_unit [OF range [OF that]] by blast
  have nth: "\<forall>i < length stops - 1.
      buildFractions_js stops ! i = Math_max (Finite 0) (jsSub (stops ! Suc i) (stops ! i))"
    using buildFractions_js_nth by blast
  have each: "\<forall>f \<in> set (buildFractions_js stops). f = NaN \<or> jsLe (Finite 0) f"
    using buildFractions_js_NaN_or_nonneg by blast
  have rational: "\<forall>f \<in> set (buildFractions rs). 0 \<le> f"
    using buildFractions_nonneg by blast
  from ends counts clamp range composed nth each rational
    buildStops_js_Finite [of c splits] clampValue_js_range [of v]
    buildFractions_js_length [of stops] buildStops_js_finite [of c rs]
    buildFractions_js_finite [of rs]
  show ?thesis by blast
qed

theorem stops_fractions_without_NaN_witness:
  "NaN \<notin> set [Finite (9 / 10), NegInfinity, PosInfinity, Finite 7]
   \<and> buildStops_js (Finite 3) [Finite (9 / 10), NegInfinity, PosInfinity, Finite 7] =
       [Finite 0, Finite (9 / 10), Finite 0, Finite 1]
   \<and> jsLe (Finite 0)
       (buildStops_js (Finite 3) [Finite (9 / 10), NegInfinity, PosInfinity, Finite 7] ! 2)
   \<and> buildFractions_js [Finite 0, Finite (9 / 10), Finite 0, Finite 1] =
       [Finite (9 / 10), Finite 0, Finite 1]
   \<and> jsLe (Finite 0)
       (buildFractions_js
          (buildStops_js (Finite 3) [Finite (9 / 10), NegInfinity, PosInfinity, Finite 7]) ! 1)
   \<and> clampValue_js PosInfinity (Finite 0) (Finite 1) = Finite 1"
proof -
  have no: "NaN \<notin> set [Finite (9 / 10), NegInfinity, PosInfinity, Finite 7]" by simp
  note total = stops_fractions_without_NaN [of "Finite 3"
      "[Finite (9 / 10), NegInfinity, PosInfinity, Finite 7]" 3 PosInfinity
      "[Finite 0, Finite (9 / 10), Finite 0, Finite 1]" "[0, 9 / 10, 0, 1]"]
  from total no
  have stops: "\<forall>s \<in> set (buildStops_js (Finite 3)
        [Finite (9 / 10), NegInfinity, PosInfinity, Finite 7]).
      jsLe (Finite 0) s \<and> jsLe s (Finite 1)"
    by blast
  from total no
  have fractions: "\<forall>f \<in> set (buildFractions_js (buildStops_js (Finite 3)
        [Finite (9 / 10), NegInfinity, PosInfinity, Finite 7])).
      jsLe (Finite 0) f \<and> jsLe f (Finite 1)"
    by blast
  from total have clamp: "PosInfinity \<noteq> NaN \<longrightarrow>
      jsLe (clampValue_js PosInfinity (Finite 0) (Finite 1)) (Finite 1)"
    by blast
  from stops fractions clamp show ?thesis
    by (simp add: buildStops_js_example buildFractions_js_example clampValue_js_unit)
qed

text \<open>
  C10 fails as stated for an array that holds \<^verbatim>\<open>NaN\<close>: with 3 parts and the splits
  \<^verbatim>\<open>[NaN, 0.5]\<close> the stops are \<^verbatim>\<open>[0, NaN, 0.5, 1]\<close>, the second of them neither clamped
  into \<open>[0, 1]\<close> nor at least 0, and the fractions of these stops are
  \<^verbatim>\<open>[NaN, NaN, 0.5]\<close>.
\<close>

theorem stops_fractions_NaN_counterexample:
  "buildStops_js (Finite 3) [NaN, Finite (1 / 2)] = [Finite 0, NaN, Finite (1 / 2), Finite 1]
   \<and> \<not> jsLe (Finite 0) (buildStops_js (Finite 3) [NaN, Finite (1 / 2)] ! 1)
   \<and> \<not> jsLe (buildStops_js (Finite 3) [NaN, Finite (1 / 2)] ! 1) (Finite 1)
   \<and> buildFractions_js (buildStops_js (Finite 3) [NaN, Finite (1 / 2)]) =
       [NaN, NaN, Finite (1 / 2)]
   \<and> \<not> jsLe (Finite 0) (buildFractions_js (buildStops_js (Finite 3) [NaN, Finite (1 / 2)]) ! 0)"
  by (simp add: buildStops_js_NaN_example buildFractions_js_NaN_example)

section \<open>Setting the grid size\<close>

lemma clampValue_1_8:
  "1 \<le> clampValue v 1 MAX_CUSTOM_GRID \<and> clampValue v 1 MAX_CUSTOM_GRID \<le> 8"
  by (simp add: clampValue_def MAX_CUSTOM_GRID_def)

lemma floor_of_nat_pred: "nat \<lfloor>(of_nat n :: rat) - 1\<rfloor> = n - 1"
proof (cases n)
  case 0
  then show ?thesis by simp
next
  case (Suc m)
  then show ?thesis by simp
qed

lemma buildEvenSplits_nat:
  "buildEvenSplits (of_nat n) = map (\<lambda>i. (of_nat i + 1) / of_nat n) [0..<n - 1]"
proof (cases "n \<le> 1")
  case True
  then have "(of_nat n :: rat) \<le> 1" by (cases n) auto
  with True show ?thesis by (simp add: buildEvenSplits_def)
next
  case False
  then have "\<not> (of_nat n :: rat) \<le> 1" by simp
  then show ?thesis unfolding buildEvenSplits_def floor_of_nat_pred by simp
qed

lemma buildStops_one: "count \<le> 1 \<Longrightarrow> buildStops count splits = [0, 1]"
  by (simp add: buildStops_def)

lemma buildFractions_01: "buildFractions [0, 1] = [1]"
  by (simp add: buildFractions_def upt_conv_Cons)

lemma Math_round_of_int_add: "Math_round (of_int k + v) = k + Math_round v"
  by (simp add: Math_round_def add.assoc)

lemma Math_round_of_int [simp]: "Math_round (of_int k) = k"
  unfolding Math_round_def by linarith

lemma Math_round_0 [simp]: "Math_round 0 = 0"
  using Math_round_of_int [of 0] by simp

lemma colLoop_single:
  "colLoop 1 colSizes w row startY sliceHeight 0 0 =
     [\<lparr>sliceRow = row, sliceCol = 0, sliceX = 0, sliceY = startY,
       sliceW = max 1 (int w), sliceH = sliceHeight\<rparr>]"
  by (subst colLoop.simps, subst colLoop.simps) (simp add: Let_def)

lemma performSlice_1x1:
  "performSlice w h 1 1 [1] [1] =
     Some [\<lparr>sliceRow = 0, sliceCol = 0, sliceX = 0, sliceY = 0,
            sliceW = max 1 (int w), sliceH = max 1 (int h)\<rparr>]"
  unfolding performSlice_def
  by (subst rowLoop.simps, subst rowLoop.simps)
     (simp add: Let_def colLoop_single [unfolded One_nat_def])

text \<open>
  C8. Setting a grid count has no error path. For every argument, \<^verbatim>\<open>updateCustomRows\<close>
  (and \<^verbatim>\<open>updateCustomCols\<close>, the same function on the other axis) stores a count in
  \<open>[1, 8]\<close>: the argument clamped into it, or 1 when the argument is \<^verbatim>\<open>NaN\<close> or
  infinite; and it stores the even default breakpoints of that count, which for a whole
  count \<open>n\<close> are \<open>(i + 1) / n\<close> for \<open>i = 0, \<dots>, n - 2\<close>. For a count of at most 1 the
  stops are exactly \<open>[0, 1]\<close> whatever the breakpoints, and a 1 by 1 grid yields exactly
  one rectangle, at the origin, as wide and as high as the image (one pixel when the
  image has none).
\<close>

theorem grid_count_clamped:
  "1 \<le> fst (updateCustomRows v) \<and> fst (updateCustomRows v) \<le> 8
   \<and> fst (updateCustomRows v) = (case v of Finite r \<Rightarrow> min (max r 1) 8 | _ \<Rightarrow> 1)
   \<and> snd (updateCustomRows v) = buildEvenSplits (fst (updateCustomRows v))
   \<and> updateCustomCols v = updateCustomRows v
   \<and> buildEvenSplits (of_nat n) = map (\<lambda>i. (of_nat i + 1) / of_nat n) [0..<n - 1]
   \<and> (count \<le> 1 \<longrightarrow> buildStops count splits = [0, 1])
   \<and> performSlice w h 1 1 (buildFractions (buildStops 1 rowSplits))
         (buildFractions (buildStops 1 colSplits)) =
       Some [\<lparr>sliceRow = 0, sliceCol = 0, sliceX = 0, sliceY = 0,
              sliceW = max 1 (int w), sliceH = max 1 (int h)\<rparr>]"
proof (intro conjI impI)
  show "1 \<le> fst (updateCustomRows v)" "fst (updateCustomRows v) \<le> 8"
    using clampValue_1_8 by (simp_all add: updateCustomRows_def Let_def)
  show "fst (updateCustomRows v) = (case v of Finite r \<Rightarrow> min (max r 1) 8 | _ \<Rightarrow> 1)"
    by (cases v) (simp_all add: updateCustomRows_def Let_def clampValue_def MAX_CUSTOM_GRID_def)
  show "snd (updateCustomRows v) = buildEvenSplits (fst (updateCustomRows v))"
    by (simp add: updateCustomRows_def Let_def)
  show "updateCustomCols v = updateCustomRows v"
    by (simp add: updateCustomRows_def updateCustomCols_def)
  show "buildEvenSplits (of_nat n) = map (\<lambda>i. (of_nat i + 1) / of_nat n) [0..<n - 1]"
    by (rule buildEvenSplits_nat)
  show "performSlice w h 1 1 (buildFractions (buildStops 1 rowSplits))
         (buildFractions (buildStops 1 colSplits)) =
       Some [\<lparr>sliceRow = 0, sliceCol = 0, sliceX = 0, sliceY = 0,
              sliceW = max 1 (int w), sliceH = max 1 (int h)\<rparr>]"
    by (simp add: buildStops_one buildFractions_01 performSlice_1x1 [unfolded One_nat_def])
next
  assume "count \<le> 1"
  then show "buildStops count splits = [0, 1]" by (rule buildStops_one)
qed

theorem grid_count_clamped_witness:
  "(1::rat) \<le> 1 \<and> buildStops 1 [1 / 2, 3 / 4] = [0, 1]
   \<and> updateCustomRows NaN = (1, []) \<and> updateCustomRows (Finite 100) = (8, buildEvenSplits 8)"
  using grid_count_clamped [of NaN 1 1 "[1 / 2, 3 / 4]"] grid_count_clamped [of "Finite 100" 8]
  by (simp add: updateCustomRows_def Let_def clampValue_def MAX_CUSTOM_GRID_def buildEvenSplits_def)

section \<open>Dragging a breakpoint\<close>

lemma getMinGap_pos: "0 < getMinGap count"
  by (simp add: getMinGap_def)

lemma getMinGap_le_inverse: "0 < n \<Longrightarrow> getMinGap (of_nat n) \<le> 1 / of_nat n"
proof -
  assume n: "0 < n"
  then have "max (of_nat n) (1::rat) = of_nat n" by (simp add: max_def)
  then have "getMinGap (of_nat n) \<le> (6 / 10) / of_nat n"
    by (simp add: getMinGap_def)
  also have "\<dots> \<le> 1 / of_nat n"
    by (intro divide_right_mono) simp_all
  finally show ?thesis .
qed

lemma successively_update:
  assumes "successively (\<lambda>a b. a + g \<le> b) xs" "0 < j" "Suc j < length xs"
    and "xs ! (j - 1) + g \<le> x" "x + g \<le> xs ! Suc j"
  shows "successively (\<lambda>a b. (a::rat) + g \<le> b) (xs[j := x])"
  unfolding successively_conv_nth
proof (intro allI impI)
  fix i assume i: "Suc i < length (xs[j := x])"
  then have old: "xs ! i + g \<le> xs ! Suc i"
    using assms(1) by (simp add: successively_conv_nth)
  consider "Suc i = j" | "i = j" | "Suc i \<noteq> j \<and> i \<noteq> j" by blast
  then show "xs[j := x] ! i + g \<le> xs[j := x] ! Suc i"
  proof cases
    case 1
    then show ?thesis using assms i by auto
  next
    case 2
    then show ?thesis using assms i by auto
  next
    case 3
    then show ?thesis using old i by auto
  qed
qed

lemma updateRowSplit_keeps_gaps:
  assumes ok: "minGapOk (getMinGap count) prev" and idx: "idx < length prev"
  shows "\<exists>s. updateRowSplit count idx v prev = Some s \<and> length s = length prev
           \<and> minGapOk (getMinGap count) s"
proof -
  define g where "g = getMinGap count"
  define ext where "ext = [0] @ prev @ [1]"
  define lowerBound where "lowerBound = (if idx = 0 then 0 else prev ! (idx - 1))"
  define upperBound where "upperBound = (if idx = length prev - 1 then 1 else prev ! (idx + 1))"
  define x where "x = clampValue v (lowerBound + g) (upperBound - g)"
  have succ: "successively (\<lambda>a b. a + g \<le> b) ext"
    using ok by (simp add: minGapOk_def g_def ext_def)
  have len: "length ext = length prev + 2" by (simp add: ext_def)
  have lo: "ext ! idx = lowerBound"
    using idx by (cases idx) (simp_all add: ext_def lowerBound_def nth_append)
  have mid: "ext ! Suc idx = prev ! idx"
    using idx by (simp add: ext_def nth_append)
  have hi: "ext ! Suc (Suc idx) = upperBound"
    using idx by (auto simp: ext_def upperBound_def nth_append)
  have "ext ! idx + g \<le> ext ! Suc idx" "ext ! Suc idx + g \<le> ext ! Suc (Suc idx)"
    using succ idx len by (simp_all add: successively_conv_nth)
  then have range: "lowerBound + g \<le> upperBound - g"
    using lo hi by linarith
  have x: "lowerBound + g \<le> x" "x + g \<le> upperBound"
    using clampValue_range [OF range, of v] by (simp_all add: x_def)
  have "successively (\<lambda>a b. a + g \<le> b) (ext[Suc idx := x])"
    using succ idx len x lo hi by (intro successively_update) simp_all
  moreover have "ext[Suc idx := x] = [0] @ prev[idx := x] @ [1]"
    using idx by (simp add: ext_def list_update_append)
  ultimately have "minGapOk g (prev[idx := x])"
    by (simp add: minGapOk_def)
  moreover have "updateRowSplit count idx v prev = Some (prev[idx := x])"
    using idx by (simp add: updateRowSplit_def Let_def x_def lowerBound_def upperBound_def g_def)
  ultimately show ?thesis by (simp add: g_def)
qed

lemma updateSplits_keeps_gaps:
  "minGapOk (getMinGap count) splits \<Longrightarrow> \<forall>(idx, v) \<in> set ups. idx < length splits \<Longrightarrow>
   \<exists>s. updateSplits count ups splits = Some s \<and> length s = length splits
      \<and> minGapOk (getMinGap count) s"
proof (induction ups arbitrary: splits)
  case Nil
  then show ?case by simp
next
  case (Cons u ups)
  obtain idx v where u: "u = (idx, v)" by (cases u)
  with Cons.prems have "idx < length splits" by simp
  from updateRowSplit_keeps_gaps [OF Cons.prems(1) this, of v]
  obtain s' where s': "updateRowSplit count idx v splits = Some s'"
    "length s' = length splits" "minGapOk (getMinGap count) s'" by blast
  from Cons.prems(2) s'(2) have "\<forall>(idx, v) \<in> set ups. idx < length s'" by simp
  from Cons.IH [OF s'(3) this] s' u show ?case by simp
qed

lemma evenSplits_ext_nth:
  "0 < n \<Longrightarrow> i \<le> n \<Longrightarrow>
   ([0] @ map (\<lambda>i. (of_nat i + 1) / of_nat n) [0..<n - 1] @ [1 :: rat]) ! i = of_nat i / of_nat n"
  by (cases i) (auto simp: nth_append not_less less_Suc_eq_le dest!: le_antisym)

lemma evenSplits_minGapOk: "minGapOk (getMinGap (of_nat n)) (buildEvenSplits (of_nat n))"
proof (cases "n = 0")
  case True
  then show ?thesis by (simp add: minGapOk_def buildEvenSplits_def getMinGap_def)
next
  case False
  then have n: "0 < n" by simp
  have step: "of_nat i / of_nat n + getMinGap (of_nat n) \<le> (of_nat (Suc i) :: rat) / of_nat n" for i
  proof -
    have "(of_nat (Suc i) :: rat) / of_nat n = of_nat i / of_nat n + 1 / of_nat n"
      by (simp add: add_divide_distrib)
    then show ?thesis using getMinGap_le_inverse [OF n] by linarith
  qed
  show ?thesis
    unfolding minGapOk_def buildEvenSplits_nat successively_conv_nth
  proof (intro allI impI)
    fix i
    assume "Suc i < length ([0] @ map (\<lambda>i. (of_nat i + 1) / of_nat n) [0..<n - 1] @ [1 :: rat])"
    then have i: "Suc i \<le> n" using n by simp
    then have "i \<le> n" by simp
    from evenSplits_ext_nth [OF n this] evenSplits_ext_nth [OF n i] step [of i]
    show "([0] @ map (\<lambda>i. (of_nat i + 1) / of_nat n) [0..<n - 1] @ [1 :: rat]) ! i
            + getMinGap (of_nat n)
          \<le> ([0] @ map (\<lambda>i. (of_nat i + 1) / of_nat n) [0..<n - 1] @ [1]) ! Suc i"
      by simp
  qed
qed

lemma minGapOk_strict:
  assumes "minGapOk g splits" "0 < g"
  shows "sorted_wrt (<) splits \<and> (\<forall>b \<in> set splits. 0 < b \<and> b < 1)"
proof -
  have "successively (<) ([0] @ splits @ [1])"
    using assms(1) unfolding minGapOk_def
    by (rule successively_mono) (use assms(2) in auto)
  then have "sorted_wrt (<) ([0] @ splits @ [1])"
    by (simp add: successively_conv_sorted_wrt)
  then show ?thesis by (auto simp: sorted_wrt_append)
qed

lemma buildEvenSplits_3: "buildEvenSplits 3 = [1 / 3, 2 / 3]"
  by (simp add: buildEvenSplits_def upt_conv_Cons)

lemma updateSplits_example: "updateSplits 3 [(0, 5), (1, - 3), (0, 3 / 5)] (buildEvenSplits 3) = Some [3 / 5, 2 / 3]"
  by (simp add: updateRowSplit_def buildEvenSplits_3 getMinGap_def clampValue_def Let_def)

text \<open>
  C6. Start from the even default breakpoints of an axis with \<open>n\<close> slices and apply any
  finite sequence of \<^verbatim>\<open>updateRowSplit\<close> calls (\<^verbatim>\<open>updateColSplit\<close> is the same function),
  each on a breakpoint of the axis and with an arbitrary raw value. Every call stores its
  value clamped into \<open>[previous + minGap, next - minGap]\<close>, the ends of the array
  counting as 0 and 1 and \<open>minGap = min(0.05, 0.6 / n)\<close>; so the \<open>n - 1\<close> stored
  breakpoints stay strictly increasing and strictly inside \<open>(0, 1)\<close>, and keep the
  minimum gap. This holds for every \<open>n\<close>, in particular for \<open>n\<close> from 2 to 8.
\<close>

lemma updateRowSplit_clamps:
  assumes "idx < length prev"
  shows "updateRowSplit count idx v prev =
     Some (prev[idx := clampValue v (([0] @ prev @ [1]) ! idx + getMinGap count)
                        (([0] @ prev @ [1]) ! (idx + 2) - getMinGap count)])"
proof -
  have lo: "(if idx = 0 then 0 else prev ! (idx - 1)) = ([0] @ prev @ [1]) ! idx"
    using assms by (cases idx) (simp_all add: nth_append)
  have hi: "(if idx = length prev - 1 then 1 else prev ! (idx + 1)) = ([0] @ prev @ [1]) ! (idx + 2)"
    using assms by (auto simp: nth_append)
  show ?thesis
    using assms unfolding updateRowSplit_def Let_def lo hi by simp
qed

theorem breakpoints_stay_ordered:
  assumes "\<forall>(idx, v) \<in> set ups. idx < n - 1"
  shows "updateColSplit = updateRowSplit
         \<and> (idx < length prev \<longrightarrow>
              updateRowSplit count idx v prev =
                Some (prev[idx := clampValue v (([0] @ prev @ [1]) ! idx + getMinGap count)
                                   (([0] @ prev @ [1]) ! (idx + 2) - getMinGap count)]))
         \<and> getMinGap count = min (1 / 20) ((6 / 10) / max count 1)
         \<and> (\<exists>splits. updateSplits (of_nat n) ups (buildEvenSplits (of_nat n)) = Some splits
           \<and> length splits = n - 1
           \<and> sorted_wrt (<) splits
           \<and> (\<forall>b \<in> set splits. 0 < b \<and> b < 1)
           \<and> minGapOk (getMinGap (of_nat n)) splits)"
proof -
  have len: "length (buildEvenSplits (of_nat n)) = n - 1"
    by (simp add: buildEvenSplits_nat)
  with assms have "\<forall>(idx, v) \<in> set ups. idx < length (buildEvenSplits (of_nat n))"
    by simp
  from updateSplits_keeps_gaps [OF evenSplits_minGapOk this] len
  obtain s where s: "updateSplits (of_nat n) ups (buildEvenSplits (of_nat n)) = Some s"
    "length s = n - 1" "minGapOk (getMinGap (of_nat n)) s" by auto
  have same: "updateColSplit = updateRowSplit"
    by (intro ext) (simp add: updateColSplit_def updateRowSplit_def)
  have gap: "getMinGap count = min (1 / 20) ((6 / 10) / max count 1)"
    by (simp add: getMinGap_def)
  from minGapOk_strict [OF s(3) getMinGap_pos] s
  have "\<exists>splits. updateSplits (of_nat n) ups (buildEvenSplits (of_nat n)) = Some splits
           \<and> length splits = n - 1
           \<and> sorted_wrt (<) splits
           \<and> (\<forall>b \<in> set splits. 0 < b \<and> b < 1)
           \<and> minGapOk (getMinGap (of_nat n)) splits"
    by blast
  with same gap updateRowSplit_clamps [of idx prev count v] show ?thesis by blast
qed

theorem breakpoints_stay_ordered_witness:
  "(0::nat) < 3 - 1 \<and> (1::nat) < 3 - 1
   \<and> updateSplits 3 [(0, 5), (1, - 3), (0, 3 / 5)] (buildEvenSplits 3) = Some [3 / 5, 2 / 3]
   \<and> sorted_wrt (<) [3 / 5, 2 / 3 :: rat]"
proof -
  from breakpoints_stay_ordered [of "[(0, 5), (1, - 3), (0, 3 / 5)]" 3]
  have "updateColSplit = updateRowSplit" by simp
  then show ?thesis using updateSplits_example by simp
qed

section \<open>The slicing loops, one axis at a time\<close>

lemma axisCuts_length: "length (axisCuts count sizes len i acc) = count - i"
proof (induction count sizes len i acc rule: axisCuts.induct)
  case (1 count sizes len i acc)
  show ?case
  proof (cases "i < count")
    case True
    with 1 show ?thesis by (subst axisCuts.simps) (simp add: Let_def)
  next
    case False
    then show ?thesis by (subst axisCuts.simps) simp
  qed
qed

lemma colLoop_axis:
  "colLoop m colSizes w row startY sliceHeight col x =
     map (mkRect row (startY, sliceHeight)) (zip [col..<m] (axisCuts m colSizes w col x))"
proof (induction m colSizes w col x rule: axisCuts.induct)
  case (1 m colSizes w col x)
  show ?case
  proof (cases "col < m")
    case True
    with 1 show ?thesis
      by (subst colLoop.simps, subst axisCuts.simps)
         (simp add: Let_def upt_conv_Cons mkRect_def)
  next
    case False
    then show ?thesis by (subst colLoop.simps, subst axisCuts.simps) simp
  qed
qed

lemma rowLoop_axis:
  "rowLoop n m rowSizes colSizes w h row y =
     concat (map (\<lambda>(r, ycut). map (mkRect r ycut) (zip [0..<m] (axisCuts m colSizes w 0 0)))
               (zip [row..<n] (axisCuts n rowSizes h row y)))"
proof (induction n rowSizes h row y rule: axisCuts.induct)
  case (1 n rowSizes h row y)
  show ?case
  proof (cases "row < n")
    case True
    with 1 show ?thesis
      by (subst rowLoop.simps, subst axisCuts.simps)
         (simp add: Let_def upt_conv_Cons colLoop_axis)
  next
    case False
    then show ?thesis by (subst rowLoop.simps, subst axisCuts.simps) simp
  qed
qed

lemma axisCuts_boundary:
  "axisCuts count sizes len i (of_int (boundary count sizes len i)) =
     map (axisCut count sizes len) [i..<count]"
proof (induction "count - i" arbitrary: i)
  case 0
  then show ?case by (subst axisCuts.simps) simp
next
  case (Suc k)
  then have i: "i < count" and k: "k = count - Suc i" by simp_all
  from Suc.hyps(1) [OF k] i show ?case
    by (subst axisCuts.simps) (simp add: Let_def upt_conv_Cons axisCut_def)
qed

lemma axisCuts_closed: "axisCuts count sizes len 0 0 = map (axisCut count sizes len) [0..<count]"
  using axisCuts_boundary [of count sizes len 0] by simp

lemma zip_map_same: "zip xs (map f xs) = map (\<lambda>x. (x, f x)) xs"
  by (induction xs) simp_all

lemma performSlice_closed:
  "performSlice w h n m rowFractions colFractions =
     (if length rowFractions < n - 1 \<or> (0 < n \<and> length colFractions < m - 1) then None
      else Some (concat (map (\<lambda>row. map (\<lambda>col.
             mkRect row (axisCut n (map (\<lambda>f. f * of_nat h) rowFractions) h row)
               (col, axisCut m (map (\<lambda>f. f * of_nat w) colFractions) w col))
             [0..<m]) [0..<n])))"
  by (simp add: performSlice_def Let_def rowLoop_axis axisCuts_closed zip_map_same
      comp_def del: upt_Suc)

lemma floor_rat_numeral_div [simp]:
  "\<lfloor>(numeral a :: rat) / numeral b\<rfloor> = numeral a div numeral b"
  using floor_divide_of_int_eq [of "numeral a" "numeral b", where ?'a = rat] by simp

lemma floor_rat_one_div [simp]: "\<lfloor>(1 :: rat) / numeral b\<rfloor> = 1 div numeral b"
  using floor_divide_of_int_eq [of 1 "numeral b", where ?'a = rat] by simp

lemma floor_rat_neg_numeral_div [simp]:
  "\<lfloor>- (numeral a :: rat) / numeral b\<rfloor> = - numeral a div numeral b"
  using floor_divide_of_int_eq [of "- numeral a" "numeral b", where ?'a = rat] by simp

lemma evenFractions_4: "buildFractions (buildStops 4 (buildEvenSplits 4)) = [1 / 4, 1 / 4, 1 / 4, 1 / 4]"
  by (simp add: buildFractions_def buildStops_def buildEvenSplits_def clampValue_def upt_conv_Cons)

lemma evenFractions_3: "buildFractions (buildStops 3 (buildEvenSplits 3)) = [1 / 3, 1 / 3, 1 / 3]"
  by (simp add: buildFractions_def buildStops_def buildEvenSplits_def clampValue_def upt_conv_Cons)

lemma evenFractions_2: "buildFractions (buildStops 2 (buildEvenSplits 2)) = [1 / 2, 1 / 2]"
  by (simp add: buildFractions_def buildStops_def buildEvenSplits_def clampValue_def upt_conv_Cons)

lemma evenFractions_1: "buildFractions (buildStops 1 (buildEvenSplits 1)) = [1]"
  by (simp add: buildFractions_def buildStops_def buildEvenSplits_def clampValue_def upt_conv_Cons)

lemma slice_1x10_rows4: "performSlice 1 10 4 1 (buildFractions (buildStops 4 (buildEvenSplits 4)))
     (buildFractions (buildStops 1 (buildEvenSplits 1))) =
   Some [\<lparr>sliceRow = 0, sliceCol = 0, sliceX = 0, sliceY = 0, sliceW = 1, sliceH = 3\<rparr>,
         \<lparr>sliceRow = 1, sliceCol = 0, sliceX = 0, sliceY = 3, sliceW = 1, sliceH = 3\<rparr>,
         \<lparr>sliceRow = 2, sliceCol = 0, sliceX = 0, sliceY = 6, sliceW = 1, sliceH = 3\<rparr>,
         \<lparr>sliceRow = 3, sliceCol = 0, sliceX = 0, sliceY = 9, sliceW = 1, sliceH = 1\<rparr>]"
  by (simp add: evenFractions_4 evenFractions_1 performSlice_def Let_def rowLoop.simps colLoop.simps Math_round_def)

lemma unroundedCuts_10_rows4: "unroundedCuts 4 [5 / 2, 5 / 2, 5 / 2, 5 / 2] 10 0 0 = [(0, 3), (3, 5), (5, 8), (8, 10)]"
  by (simp add: unroundedCuts.simps Let_def Math_round_def)

lemma slice_301x1_cols3: "performSlice 301 1 1 3 (buildFractions (buildStops 1 (buildEvenSplits 1)))
     (buildFractions (buildStops 3 (buildEvenSplits 3))) =
   Some [\<lparr>sliceRow = 0, sliceCol = 0, sliceX = 0, sliceY = 0, sliceW = 100, sliceH = 1\<rparr>,
         \<lparr>sliceRow = 0, sliceCol = 1, sliceX = 100, sliceY = 0, sliceW = 100, sliceH = 1\<rparr>,
         \<lparr>sliceRow = 0, sliceCol = 2, sliceX = 200, sliceY = 0, sliceW = 101, sliceH = 1\<rparr>]"
  by (simp add: evenFractions_3 evenFractions_1 performSlice_def Let_def rowLoop.simps colLoop.simps Math_round_def)

lemma slice_1x1_cols2: "performSlice 1 1 1 2 (buildFractions (buildStops 1 (buildEvenSplits 1)))
     (buildFractions (buildStops 2 (buildEvenSplits 2))) =
   Some [\<lparr>sliceRow = 0, sliceCol = 0, sliceX = 0, sliceY = 0, sliceW = 1, sliceH = 1\<rparr>,
         \<lparr>sliceRow = 0, sliceCol = 1, sliceX = 1, sliceY = 0, sliceW = 1, sliceH = 1\<rparr>]"
  by (simp add: evenFractions_2 evenFractions_1 performSlice_def Let_def rowLoop.simps colLoop.simps Math_round_def)

text \<open>
  C4 (as the code has it). \<^verbatim>\<open>performSlice\<close> returns, in row-major order, one rectangle for
  every row and column; the top of a row is the boundary before it and its height is the
  difference to the boundary after it, at least 1 (columns alike). Boundary 0 is 0; the
  boundary after the last row is the image height exactly; every other boundary is
  \<open>round(y + rowFraction * imageHeight)\<close> where the accumulator \<open>y\<close> is the previous
  boundary itself, already rounded: the loop sets \<open>y = nextY\<close>, it does not add the
  unrounded increment.
\<close>

theorem slice_edges_snap_to_rounded_boundary:
  "performSlice w h n m rowFractions colFractions =
     (if length rowFractions < n - 1 \<or> (0 < n \<and> length colFractions < m - 1) then None
      else Some (concat (map (\<lambda>row. map (\<lambda>col.
             \<lparr>sliceRow = row, sliceCol = col,
              sliceX = boundary m (map (\<lambda>f. f * of_nat w) colFractions) w col,
              sliceY = boundary n (map (\<lambda>f. f * of_nat h) rowFractions) h row,
              sliceW = max 1 (boundary m (map (\<lambda>f. f * of_nat w) colFractions) w (Suc col)
                              - boundary m (map (\<lambda>f. f * of_nat w) colFractions) w col),
              sliceH = max 1 (boundary n (map (\<lambda>f. f * of_nat h) rowFractions) h (Suc row)
                              - boundary n (map (\<lambda>f. f * of_nat h) rowFractions) h row)\<rparr>)
             [0..<m]) [0..<n])))
   \<and> boundary count sizes len 0 = 0
   \<and> boundary count sizes len (Suc i) =
       (if i = count - 1 then int len
        else Math_round (of_int (boundary count sizes len i) + sizes ! i))"
proof (intro conjI)
  let ?rowSizes = "map (\<lambda>f. f * of_nat h) rowFractions"
  let ?colSizes = "map (\<lambda>f. f * of_nat w) colFractions"
  have rect: "mkRect row (axisCut n ?rowSizes h row) (col, axisCut m ?colSizes w col) =
      \<lparr>sliceRow = row, sliceCol = col,
       sliceX = boundary m ?colSizes w col, sliceY = boundary n ?rowSizes h row,
       sliceW = max 1 (boundary m ?colSizes w (Suc col) - boundary m ?colSizes w col),
       sliceH = max 1 (boundary n ?rowSizes h (Suc row) - boundary n ?rowSizes h row)\<rparr>"
    for row col
    by (simp add: mkRect_def axisCut_def)
  show "performSlice w h n m rowFractions colFractions =
     (if length rowFractions < n - 1 \<or> (0 < n \<and> length colFractions < m - 1) then None
      else Some (concat (map (\<lambda>row. map (\<lambda>col.
             \<lparr>sliceRow = row, sliceCol = col,
              sliceX = boundary m ?colSizes w col,
              sliceY = boundary n ?rowSizes h row,
              sliceW = max 1 (boundary m ?colSizes w (Suc col) - boundary m ?colSizes w col),
              sliceH = max 1 (boundary n ?rowSizes h (Suc row) - boundary n ?rowSizes h row)\<rparr>)
             [0..<m]) [0..<n])))"
    unfolding performSlice_closed rect ..
  show "boundary count sizes len 0 = 0" by simp
  show "boundary count sizes len (Suc i) =
       (if i = count - 1 then int len
        else Math_round (of_int (boundary count sizes len i) + sizes ! i))"
    by simp
qed

text \<open>
  C4 fails as stated: a 1 by 10 image in 4 even rows (2.5 pixels each) is cut at 3, 6 and
  9 by the code, the second row spanning 3 to 6; with an accumulator advanced by the
  unrounded 2.5 the cuts would be at 3, 5 and 8.
\<close>

theorem unrounded_accumulator_counterexample:
  "performSlice 1 10 4 1 (buildFractions (buildStops 4 (buildEvenSplits 4)))
     (buildFractions (buildStops 1 (buildEvenSplits 1))) =
   Some [\<lparr>sliceRow = 0, sliceCol = 0, sliceX = 0, sliceY = 0, sliceW = 1, sliceH = 3\<rparr>,
         \<lparr>sliceRow = 1, sliceCol = 0, sliceX = 0, sliceY = 3, sliceW = 1, sliceH = 3\<rparr>,
         \<lparr>sliceRow = 2, sliceCol = 0, sliceX = 0, sliceY = 6, sliceW = 1, sliceH = 3\<rparr>,
         \<lparr>sliceRow = 3, sliceCol = 0, sliceX = 0, sliceY = 9, sliceW = 1, sliceH = 1\<rparr>]
   \<and> unroundedCuts 4 [5 / 2, 5 / 2, 5 / 2, 5 / 2] 10 0 0 = [(0, 3), (3, 5), (5, 8), (8, 10)]
   \<and> unroundedCuts 4 [5 / 2, 5 / 2, 5 / 2, 5 / 2] 10 0 0 \<noteq> [(0, 3), (3, 6), (6, 9), (9, 10)]"
  using slice_1x10_rows4 unroundedCuts_10_rows4 by simp

lemma in_performSlice:
  assumes "performSlice w h n m rowFractions colFractions = Some rs" "rect \<in> set rs"
  shows "\<exists>row < n. \<exists>col < m. rect =
           mkRect row (axisCut n (map (\<lambda>f. f * of_nat h) rowFractions) h row)
             (col, axisCut m (map (\<lambda>f. f * of_nat w) colFractions) w col)"
  using assms by (auto simp: performSlice_closed split: if_splits simp del: upt_Suc) blast

lemma axisCut_last:
  "fst (axisCut count sizes len (count - 1)) + snd (axisCut count sizes len (count - 1))
     = max (int len) (fst (axisCut count sizes len (count - 1)) + 1)"
proof (cases count)
  case 0
  then show ?thesis by (simp add: axisCut_def max_def)
next
  case (Suc k)
  then show ?thesis by (simp add: axisCut_def max_def)
qed

text \<open>
  C5 (as the code has it). The boundary after the last column is the image width, and the
  one after the last row the image height, for every split and image size; the rectangle
  of the last column ends at \<open>max(width, startX + 1)\<close>, that is at the image width exactly
  whenever it starts left of it, and the last row alike. A 301 pixel wide image in 3 even
  columns has columns of 100, 100 and 101 pixels.
\<close>

theorem last_edge_is_image_edge:
  "(performSlice w h n m rowFractions colFractions = Some rs \<and> rect \<in> set rs \<longrightarrow>
      (sliceCol rect = m - 1 \<longrightarrow> sliceX rect + sliceW rect = max (int w) (sliceX rect + 1))
      \<and> (sliceRow rect = n - 1 \<longrightarrow> sliceY rect + sliceH rect = max (int h) (sliceY rect + 1)))
   \<and> performSlice 301 1 1 3 (buildFractions (buildStops 1 (buildEvenSplits 1)))
         (buildFractions (buildStops 3 (buildEvenSplits 3))) =
       Some [\<lparr>sliceRow = 0, sliceCol = 0, sliceX = 0, sliceY = 0, sliceW = 100, sliceH = 1\<rparr>,
             \<lparr>sliceRow = 0, sliceCol = 1, sliceX = 100, sliceY = 0, sliceW = 100, sliceH = 1\<rparr>,
             \<lparr>sliceRow = 0, sliceCol = 2, sliceX = 200, sliceY = 0, sliceW = 101, sliceH = 1\<rparr>]"
proof (intro conjI impI)
  assume a: "performSlice w h n m rowFractions colFractions = Some rs \<and> rect \<in> set rs"
  then obtain row col where rc: "row < n" "col < m"
    and rect: "rect = mkRect row (axisCut n (map (\<lambda>f. f * of_nat h) rowFractions) h row)
             (col, axisCut m (map (\<lambda>f. f * of_nat w) colFractions) w col)"
    using in_performSlice by blast
  {
    assume "sliceCol rect = m - 1"
    then have "col = m - 1" by (simp add: rect mkRect_def)
    with rc axisCut_last [of m "map (\<lambda>f. f * of_nat w) colFractions" w]
    show "sliceX rect + sliceW rect = max (int w) (sliceX rect + 1)"
      by (simp add: rect mkRect_def)
  }
  {
    assume "sliceRow rect = n - 1"
    then have "row = n - 1" by (simp add: rect mkRect_def)
    with rc axisCut_last [of n "map (\<lambda>f. f * of_nat h) rowFractions" h]
    show "sliceY rect + sliceH rect = max (int h) (sliceY rect + 1)"
      by (simp add: rect mkRect_def)
  }
next
  show "performSlice 301 1 1 3 (buildFractions (buildStops 1 (buildEvenSplits 1)))
         (buildFractions (buildStops 3 (buildEvenSplits 3))) =
       Some [\<lparr>sliceRow = 0, sliceCol = 0, sliceX = 0, sliceY = 0, sliceW = 100, sliceH = 1\<rparr>,
             \<lparr>sliceRow = 0, sliceCol = 1, sliceX = 100, sliceY = 0, sliceW = 100, sliceH = 1\<rparr>,
             \<lparr>sliceRow = 0, sliceCol = 2, sliceX = 200, sliceY = 0, sliceW = 101, sliceH = 1\<rparr>]"
    by (rule slice_301x1_cols3)
qed

theorem last_edge_is_image_edge_witness:
  "performSlice 301 1 1 3 (buildFractions (buildStops 1 (buildEvenSplits 1)))
         (buildFractions (buildStops 3 (buildEvenSplits 3))) =
       Some [\<lparr>sliceRow = 0, sliceCol = 0, sliceX = 0, sliceY = 0, sliceW = 100, sliceH = 1\<rparr>,
             \<lparr>sliceRow = 0, sliceCol = 1, sliceX = 100, sliceY = 0, sliceW = 100, sliceH = 1\<rparr>,
             \<lparr>sliceRow = 0, sliceCol = 2, sliceX = 200, sliceY = 0, sliceW = 101, sliceH = 1\<rparr>]
   \<and> (200::int) + 101 = max (int 301) (200 + 1)
   \<and> (0::int) + 1 = max (int 1) (0 + 1)"
  using last_edge_is_image_edge [of 301 1 1 3 "buildFractions (buildStops 1 (buildEvenSplits 1))"
      "buildFractions (buildStops 3 (buildEvenSplits 3))"
      "[\<lparr>sliceRow = 0, sliceCol = 0, sliceX = 0, sliceY = 0, sliceW = 100, sliceH = 1\<rparr>,
        \<lparr>sliceRow = 0, sliceCol = 1, sliceX = 100, sliceY = 0, sliceW = 100, sliceH = 1\<rparr>,
        \<lparr>sliceRow = 0, sliceCol = 2, sliceX = 200, sliceY = 0, sliceW = 101, sliceH = 1\<rparr>]"
      "\<lparr>sliceRow = 0, sliceCol = 2, sliceX = 200, sliceY = 0, sliceW = 101, sliceH = 1\<rparr>"]
  by simp

text \<open>
  C5 fails as stated for an image smaller than its grid: a 1 by 1 image in 2 even columns
  has its second column start at 1 with the minimum width 1, so its right edge is 2.
\<close>

theorem last_edge_counterexample:
  "performSlice 1 1 1 2 (buildFractions (buildStops 1 (buildEvenSplits 1)))
     (buildFractions (buildStops 2 (buildEvenSplits 2))) =
   Some [\<lparr>sliceRow = 0, sliceCol = 0, sliceX = 0, sliceY = 0, sliceW = 1, sliceH = 1\<rparr>,
         \<lparr>sliceRow = 0, sliceCol = 1, sliceX = 1, sliceY = 0, sliceW = 1, sliceH = 1\<rparr>]
   \<and> sliceX \<lparr>sliceRow = 0, sliceCol = 1, sliceX = 1, sliceY = 0, sliceW = 1, sliceH = 1\<rparr>
       + sliceW \<lparr>sliceRow = 0, sliceCol = 1, sliceX = 1, sliceY = 0, sliceW = 1, sliceH = 1\<rparr>
       \<noteq> int 1"
  using slice_1x1_cols2 by simp

section \<open>The rectangles as a partition of the image\<close>

lemma boundary_mono:
  assumes "\<And>i. i < count \<Longrightarrow> boundary count sizes len i < boundary count sizes len (Suc i)"
  shows "i \<le> j \<Longrightarrow> j \<le> count \<Longrightarrow> boundary count sizes len i \<le> boundary count sizes len j"
proof (induction j)
  case 0
  then show ?case by simp
next
  case (Suc j)
  show ?case
  proof (cases "i = Suc j")
    case True
    then show ?thesis by simp
  next
    case False
    with Suc.prems have "i \<le> j" "j \<le> count" "j < count" by simp_all
    with Suc.IH assms [of j] show ?thesis by linarith
  qed
qed

lemma one_slice_per_pixel:
  fixes b :: "nat \<Rightarrow> int"
  assumes inc: "\<And>i. i < count \<Longrightarrow> b i < b (Suc i)"
  shows "k \<le> count \<Longrightarrow> b 0 \<le> p \<Longrightarrow>
         length (filter (inSlice b p) [0..<k]) = (if p < b k then 1 else 0)"
proof (induction k)
  case 0
  then show ?case by simp
next
  case (Suc k)
  then have k: "k \<le> count" "k < count" by simp_all
  have IH: "length (filter (inSlice b p) [0..<k]) = (if p < b k then 1 else 0)"
    using Suc.IH [OF k(1) Suc.prems(2)] .
  have "b k < b (Suc k)" using inc [OF k(2)] .
  moreover have "inSlice b p k = (b k \<le> p \<and> p < b (Suc k))"
    by (simp add: inSlice_def)
  ultimately show ?case using IH by auto
qed

lemma filter_grid_length:
  assumes "\<And>r c. r \<in> set rs \<Longrightarrow> c \<in> set cs \<Longrightarrow> P (R r c) = (A r \<and> B c)"
  shows "length (filter P (concat (map (\<lambda>r. map (R r) cs) rs)))
           = length (filter A rs) * length (filter B cs)"
  using assms
proof (induction rs)
  case Nil
  then show ?case by simp
next
  case (Cons r rs)
  have "filter (\<lambda>c. P (R r c)) cs = filter (\<lambda>c. A r \<and> B c) cs"
    by (rule filter_cong) (simp_all add: Cons.prems)
  then have "length (filter P (map (R r) cs)) = (if A r then length (filter B cs) else 0)"
    by (simp add: filter_map comp_def)
  moreover have "length (filter P (concat (map (\<lambda>r. map (R r) cs) rs)))
           = length (filter A rs) * length (filter B cs)"
    by (rule Cons.IH) (simp add: Cons.prems)
  ultimately show ?case by simp
qed

lemma Math_round_le: "of_int (Math_round v) \<le> v + 1 / 2"
  unfolding Math_round_def by linarith

lemma Math_round_step: "1 / 2 \<le> s \<Longrightarrow> k + 1 \<le> Math_round (of_int k + s)"
  unfolding Math_round_def by linarith

lemma roomy_size: "roomy count sizes len \<Longrightarrow> i < count \<Longrightarrow> (of_nat count + 1) / 2 \<le> sizes ! i"
  by (simp add: roomy_def list_all_length)

lemma boundary_drift:
  assumes "roomy count sizes len"
  shows "i < count \<Longrightarrow>
         of_int (boundary count sizes len i) \<le> sum_list (take i sizes) + of_nat i / 2"
proof (induction i)
  case 0
  then show ?case by simp
next
  case (Suc i)
  then have i: "i < count" "i \<noteq> count - 1" by simp_all
  have len: "i < length sizes" using assms i by (simp add: roomy_def)
  have "of_int (boundary count sizes len (Suc i))
          \<le> of_int (boundary count sizes len i) + sizes ! i + 1 / 2"
    using i Math_round_le [of "of_int (boundary count sizes len i) + sizes ! i"] by simp
  also have "\<dots> \<le> sum_list (take i sizes) + of_nat i / 2 + sizes ! i + 1 / 2"
    using Suc.IH [OF i(1)] by simp
  also have "\<dots> = sum_list (take (Suc i) sizes) + of_nat (Suc i) / 2"
    using len by (simp add: take_Suc_conv_app_nth add_divide_distrib)
  finally show ?case .
qed

lemma boundary_increasing:
  assumes r: "roomy count sizes len" and i: "i < count"
  shows "boundary count sizes len i < boundary count sizes len (Suc i)"
proof (cases "i = count - 1")
  case False
  have "1 / 2 \<le> sizes ! i"
  proof -
    have "(1::rat) / 2 \<le> (of_nat count + 1) / 2" by simp
    with roomy_size [OF r i] show ?thesis by linarith
  qed
  from Math_round_step [OF this, of "boundary count sizes len i"] False
  show ?thesis by simp
next
  case True
  have len: "length sizes = count" "0 < count" using r by (simp_all add: roomy_def)
  have "sizes = take i sizes @ [sizes ! i]"
    using True len by (metis Suc_diff_1 lessI order_refl take_Suc_conv_app_nth take_all)
  then have "sum_list sizes = sum_list (take i sizes) + sizes ! i"
    by (metis add.right_neutral sum_list.Cons sum_list.Nil sum_list_append)
  then have total: "sum_list (take i sizes) = of_nat len - sizes ! i"
    using r by (simp add: roomy_def)
  have "of_nat i / 2 = (of_nat count - 1) / (2::rat)"
    using True len by (simp add: of_nat_diff)
  with boundary_drift [OF r i] total roomy_size [OF r i]
  have "(of_int (boundary count sizes len i) :: rat) \<le> of_nat len - 1"
    by (simp add: field_simps)
  then have "(of_int (boundary count sizes len i) :: rat) \<le> of_int (int len - 1)" by simp
  then have "boundary count sizes len i \<le> int len - 1" by (simp only: of_int_le_iff)
  with True show ?thesis by simp
qed

lemma boundary_last: "0 < count \<Longrightarrow> boundary count sizes len count = int len"
  by (cases count) simp_all

lemma roomy_axisCut:
  "roomy count sizes len \<Longrightarrow> i < count \<Longrightarrow>
   axisCut count sizes len i =
     (boundary count sizes len i, boundary count sizes len (Suc i) - boundary count sizes len i)"
  using boundary_increasing [of count sizes len i] by (simp add: axisCut_def)

lemma roomy_boundary_range:
  assumes r: "roomy count sizes len" and i: "i \<le> count"
  shows "0 \<le> boundary count sizes len i \<and> boundary count sizes len i \<le> int len"
proof -
  have c: "0 < count" using r by (simp add: roomy_def)
  from boundary_mono [OF boundary_increasing [OF r], of 0 i] i
  have "boundary count sizes len 0 \<le> boundary count sizes len i" by simp
  moreover from boundary_mono [OF boundary_increasing [OF r], of i count] i
  have "boundary count sizes len i \<le> boundary count sizes len count" by simp
  ultimately show ?thesis using boundary_last [OF c] by simp
qed

lemma roomy_one_slice:
  assumes r: "roomy count sizes len" and p: "0 \<le> p" "p < int len"
  shows "length (filter (inSlice (boundary count sizes len) p) [0..<count]) = 1"
proof -
  have c: "0 < count" using r by (simp add: roomy_def)
  from one_slice_per_pixel [of count "boundary count sizes len" count p,
      OF boundary_increasing [OF r]] p boundary_last [OF c, of sizes len]
  show ?thesis by simp
qed

lemma roomy_partition:
  assumes rows: "roomy n (map (\<lambda>f. f * of_nat h) rowFractions) h"
    and cols: "roomy m (map (\<lambda>f. f * of_nat w) colFractions) w"
  shows "\<exists>rs. performSlice w h n m rowFractions colFractions = Some rs
          \<and> length rs = n * m \<and> exactPartition w h rs"
proof -
  define rowSizes where "rowSizes = map (\<lambda>f. f * of_nat h) rowFractions"
  define colSizes where "colSizes = map (\<lambda>f. f * of_nat w) colFractions"
  define R where "R = (\<lambda>row col. mkRect row (axisCut n rowSizes h row)
                                    (col, axisCut m colSizes w col))"
  define rs where "rs = concat (map (\<lambda>row. map (R row) [0..<m]) [0..<n])"
  note rows' = rows [folded rowSizes_def] and cols' = cols [folded colSizes_def]
  have len: "length rowFractions = n" "length colFractions = m"
    using rows cols by (simp_all add: roomy_def)
  have result: "performSlice w h n m rowFractions colFractions = Some rs"
  proof -
    have "\<not> (length rowFractions < n - 1 \<or> (0 < n \<and> length colFractions < m - 1))"
      using len by auto
    then show ?thesis
      unfolding performSlice_closed rs_def R_def rowSizes_def colSizes_def by simp
  qed
  have size: "length rs = n * m"
    by (simp add: rs_def length_concat comp_def sum_list_triv del: upt_Suc)
  have rect: "R row col =
      \<lparr>sliceRow = row, sliceCol = col,
       sliceX = boundary m colSizes w col, sliceY = boundary n rowSizes h row,
       sliceW = boundary m colSizes w (Suc col) - boundary m colSizes w col,
       sliceH = boundary n rowSizes h (Suc row) - boundary n rowSizes h row\<rparr>"
    if "row < n" "col < m" for row col
    using that by (simp add: R_def mkRect_def roomy_axisCut [OF rows'] roomy_axisCut [OF cols'])
  have inside: "insideImage w h (R row col)" if "row < n" "col < m" for row col
  proof -
    from that have "Suc row \<le> n" "Suc col \<le> m" "row \<le> n" "col \<le> m" by simp_all
    with roomy_boundary_range [OF rows', of row] roomy_boundary_range [OF rows', of "Suc row"]
      roomy_boundary_range [OF cols', of col] roomy_boundary_range [OF cols', of "Suc col"]
      boundary_increasing [OF rows' that(1)] boundary_increasing [OF cols' that(2)]
    show ?thesis by (simp add: rect [OF that] insideImage_def)
  qed
  have all_inside: "list_all (insideImage w h) rs"
    using inside by (auto simp: rs_def list_all_iff simp del: upt_Suc)
  have count: "coverCount rs px py = 1" if "px \<in> {0..<int w}" "py \<in> {0..<int h}" for px py
  proof -
    have "coverCount rs px py =
        length (filter (inSlice (boundary n rowSizes h) py) [0..<n])
        * length (filter (inSlice (boundary m colSizes w) px) [0..<m])"
      unfolding coverCount_def rs_def
    proof (rule filter_grid_length)
      fix row col assume "row \<in> set [0..<n]" "col \<in> set [0..<m]"
      then have "row < n" "col < m" by simp_all
      from rect [OF this]
      show "covers (R row col) px py =
          (inSlice (boundary n rowSizes h) py row \<and> inSlice (boundary m colSizes w) px col)"
        by (auto simp: covers_def inSlice_def)
    qed
    with roomy_one_slice [OF rows', of py] roomy_one_slice [OF cols', of px] that
    show ?thesis by simp
  qed
  from result size all_inside count show ?thesis
    by (auto simp: exactPartition_def)
qed

lemma buildFractions_Cons2:
  "buildFractions (a # b # xs) = max 0 (b - a) # buildFractions (b # xs)"
proof -
  have "[0..<Suc (length xs)] = 0 # map Suc [0..<length xs]"
    by (simp add: upt_conv_Cons map_Suc_upt del: upt_Suc)
  then show ?thesis
    by (simp add: buildFractions_def zip_map2 comp_def case_prod_unfold del: upt_Suc)
qed

lemma buildFractions_single: "buildFractions [a] = []"
  by (simp add: buildFractions_def)

lemma fractions_of_gaps:
  "successively (\<lambda>a b. a + g \<le> b) stops \<Longrightarrow> 0 \<le> g \<Longrightarrow> stops \<noteq> [] \<Longrightarrow>
   sum_list (buildFractions stops) = last stops - hd stops
   \<and> list_all (\<lambda>f. g \<le> f) (buildFractions stops)"
proof (induction stops rule: induct_list012)
  case 1
  then show ?case by simp
next
  case (2 a)
  then show ?case by (simp add: buildFractions_single)
next
  case (3 a b xs)
  then have "a + g \<le> b" "successively (\<lambda>a b. a + g \<le> b) (b # xs)" by simp_all
  with 3 show ?case by (simp add: buildFractions_Cons2 max_def)
qed

lemma buildStops_valid:
  assumes "length splits = n - 1" "minGapOk g splits" "0 < g"
  shows "buildStops (of_nat n) splits = [0] @ splits @ [1]"
proof (cases "n \<le> 1")
  case True
  then have "(of_nat n :: rat) \<le> 1" by (cases n) auto
  with True assms(1) show ?thesis by (simp add: buildStops_def)
next
  case False
  then have "\<not> (of_nat n :: rat) \<le> 1" by simp
  moreover have "map (\<lambda>v. clampValue v 0 1) splits = splits"
    using minGapOk_strict [OF assms(2,3)] by (intro map_idI) (auto simp: clampValue_def)
  ultimately show ?thesis
    using assms(1) by (simp add: buildStops_def floor_of_nat_pred)
qed

lemma getMinGap_upto_12: "n \<le> 12 \<Longrightarrow> getMinGap (of_nat n) = 1 / 20"
proof -
  assume "n \<le> 12"
  then have "(of_nat n :: rat) \<le> 12" by simp
  then have "max (of_nat n) (1 :: rat) \<le> 12" "0 < max (of_nat n) (1 :: rat)" by simp_all
  then have "(1 :: rat) / 20 \<le> (6 / 10) / max (of_nat n) 1"
    by (simp add: field_simps)
  then show ?thesis by (simp add: getMinGap_def)
qed

lemma valid_fractions:
  assumes n: "1 \<le> n"
    and splits: "length splits = n - 1" "minGapOk (getMinGap (of_nat n)) splits"
  shows "length (buildFractions (buildStops (of_nat n) splits)) = n"
    and "sum_list (buildFractions (buildStops (of_nat n) splits)) = 1"
    and "list_all (\<lambda>f. getMinGap (of_nat n) \<le> f) (buildFractions (buildStops (of_nat n) splits))"
proof -
  have stops: "buildStops (of_nat n) splits = [0] @ splits @ [1]"
    using buildStops_valid [OF splits(1) splits(2) getMinGap_pos] .
  have succ: "successively (\<lambda>a b. a + getMinGap (of_nat n) \<le> b) ([0] @ splits @ [1])"
    using splits(2) by (simp add: minGapOk_def)
  have g: "0 \<le> getMinGap (of_nat n)" using getMinGap_pos [of "of_nat n"] by simp
  show "length (buildFractions (buildStops (of_nat n) splits)) = n"
    using n splits(1) by (simp add: stops buildFractions_length)
  from fractions_of_gaps [OF succ g]
  show "sum_list (buildFractions (buildStops (of_nat n) splits)) = 1"
    and "list_all (\<lambda>f. getMinGap (of_nat n) \<le> f)
           (buildFractions (buildStops (of_nat n) splits))"
    by (simp_all add: stops)
qed

lemma fractions_roomy:
  assumes n: "1 \<le> n"
    and splits: "length splits = n - 1" "minGapOk (getMinGap (of_nat n)) splits"
    and sizes: "\<forall>f \<in> set (buildFractions (buildStops (of_nat n) splits)).
                  (of_nat n + 1) / 2 \<le> f * of_nat len"
  shows "roomy n (map (\<lambda>f. f * of_nat len) (buildFractions (buildStops (of_nat n) splits))) len"
proof -
  note fr = valid_fractions [OF n splits]
  have "sum_list (map (\<lambda>f. f * of_nat len) (buildFractions (buildStops (of_nat n) splits)))
          = of_nat len"
    using fr(2) by (simp add: sum_list_mult_const)
  moreover have "list_all (\<lambda>s. (of_nat n + 1) / 2 \<le> s)
      (map (\<lambda>f. f * of_nat len) (buildFractions (buildStops (of_nat n) splits)))"
    using sizes by (simp add: list_all_iff)
  ultimately show ?thesis using n fr(1) by (simp add: roomy_def)
qed

lemma valid_splits_min_size:
  assumes n: "1 \<le> n" "n \<le> 8"
    and splits: "length splits = n - 1" "minGapOk (getMinGap (of_nat n)) splits"
    and len: "10 * (n + 1) \<le> len"
    and f: "f \<in> set (buildFractions (buildStops (of_nat n) splits))"
  shows "(of_nat n + 1) / 2 \<le> f * of_nat len"
proof -
  have g: "getMinGap (of_nat n) = 1 / 20" using n by (simp add: getMinGap_upto_12)
  have "1 / 20 \<le> f"
    using valid_fractions(3) [OF n(1) splits] f by (simp add: list_all_iff g)
  moreover have "(of_nat (10 * (n + 1)) :: rat) \<le> of_nat len"
    using len by (simp only: of_nat_le_iff)
  then have "(of_nat n + 1) / 2 \<le> (1 / 20) * (of_nat len :: rat)" by simp
  ultimately show ?thesis
    by (meson mult_right_mono of_nat_0_le_iff order_trans)
qed

lemma slice_300x300:
  "performSlice 300 300 3 3 (buildFractions (buildStops 3 (buildEvenSplits 3)))
     (buildFractions (buildStops 3 (buildEvenSplits 3))) =
   Some [\<lparr>sliceRow = 0, sliceCol = 0, sliceX = 0, sliceY = 0, sliceW = 100, sliceH = 100\<rparr>,
         \<lparr>sliceRow = 0, sliceCol = 1, sliceX = 100, sliceY = 0, sliceW = 100, sliceH = 100\<rparr>,
         \<lparr>sliceRow = 0, sliceCol = 2, sliceX = 200, sliceY = 0, sliceW = 100, sliceH = 100\<rparr>,
         \<lparr>sliceRow = 1, sliceCol = 0, sliceX = 0, sliceY = 100, sliceW = 100, sliceH = 100\<rparr>,
         \<lparr>sliceRow = 1, sliceCol = 1, sliceX = 100, sliceY = 100, sliceW = 100, sliceH = 100\<rparr>,
         \<lparr>sliceRow = 1, sliceCol = 2, sliceX = 200, sliceY = 100, sliceW = 100, sliceH = 100\<rparr>,
         \<lparr>sliceRow = 2, sliceCol = 0, sliceX = 0, sliceY = 200, sliceW = 100, sliceH = 100\<rparr>,
         \<lparr>sliceRow = 2, sliceCol = 1, sliceX = 100, sliceY = 200, sliceW = 100, sliceH = 100\<rparr>,
         \<lparr>sliceRow = 2, sliceCol = 2, sliceX = 200, sliceY = 200, sliceW = 100, sliceH = 100\<rparr>]"
  by (simp add: evenFractions_3 performSlice_def Let_def rowLoop.simps colLoop.simps Math_round_def)

lemma slice_1x1_rows3:
  "performSlice 1 1 3 1 (buildFractions (buildStops 3 (buildEvenSplits 3)))
     (buildFractions (buildStops 1 (buildEvenSplits 1))) =
   Some [\<lparr>sliceRow = 0, sliceCol = 0, sliceX = 0, sliceY = 0, sliceW = 1, sliceH = 1\<rparr>,
         \<lparr>sliceRow = 1, sliceCol = 0, sliceX = 0, sliceY = 0, sliceW = 1, sliceH = 1\<rparr>,
         \<lparr>sliceRow = 2, sliceCol = 0, sliceX = 0, sliceY = 0, sliceW = 1, sliceH = 1\<rparr>]"
  by (simp add: evenFractions_3 evenFractions_1 performSlice_def Let_def rowLoop.simps
      colLoop.simps Math_round_def)

lemma slice_30x30_2x2:
  "performSlice 30 30 2 2 (buildFractions (buildStops 2 [2 / 5]))
     (buildFractions (buildStops 2 [1 / 2])) =
   Some [\<lparr>sliceRow = 0, sliceCol = 0, sliceX = 0, sliceY = 0, sliceW = 15, sliceH = 12\<rparr>,
         \<lparr>sliceRow = 0, sliceCol = 1, sliceX = 15, sliceY = 0, sliceW = 15, sliceH = 12\<rparr>,
         \<lparr>sliceRow = 1, sliceCol = 0, sliceX = 0, sliceY = 12, sliceW = 15, sliceH = 18\<rparr>,
         \<lparr>sliceRow = 1, sliceCol = 1, sliceX = 15, sliceY = 12, sliceW = 15, sliceH = 18\<rparr>]"
  by (simp add: buildFractions_def buildStops_def clampValue_def upt_conv_Cons
      performSlice_def Let_def rowLoop.simps colLoop.simps Math_round_def)

lemma fractions_2x2_example:
  "buildFractions (buildStops 2 [2 / 5]) = [2 / 5, 3 / 5]"
  "buildFractions (buildStops 2 [1 / 2]) = [1 / 2, 1 / 2]"
  by (simp_all add: buildFractions_def buildStops_def clampValue_def upt_conv_Cons)

text \<open>
  C2 (as the code has it). For row and column counts \<open>n\<close>, \<open>m\<close> of at least 1, valid
  breakpoints on both axes (\<open>n - 1\<close> and \<open>m - 1\<close> of them, neighbours in
  \<open>0, splits, 1\<close> at least the minimum gap apart), and an image in which every row
  fraction covers at least \<open>(n + 1) / 2\<close> pixels of the height and every column fraction
  at least \<open>(m + 1) / 2\<close> pixels of the width, \<^verbatim>\<open>performSlice\<close> returns \<open>n m\<close> rectangles
  that exactly partition the image: each lies inside it and every pixel lies in exactly
  one. For counts up to 8, the largest the controls allow, a side of at least
  \<open>10 (k + 1)\<close> pixels is enough on an axis with \<open>k\<close> parts. A 300 by 300 image with the
  even 3 by 3 split gives nine rectangles of 100 by 100 at (0,0), (100,0), (200,0),
  (0,100), and so on.
\<close>

theorem slices_partition_image:
  "(1 \<le> n \<and> 1 \<le> m
    \<and> length rowSplits = n - 1 \<and> minGapOk (getMinGap (of_nat n)) rowSplits
    \<and> length colSplits = m - 1 \<and> minGapOk (getMinGap (of_nat m)) colSplits
    \<and> (\<forall>f \<in> set (buildFractions (buildStops (of_nat n) rowSplits)).
          (of_nat n + 1) / 2 \<le> f * of_nat h)
    \<and> (\<forall>f \<in> set (buildFractions (buildStops (of_nat m) colSplits)).
          (of_nat m + 1) / 2 \<le> f * of_nat w)
    \<longrightarrow> (\<exists>rs. performSlice w h n m (buildFractions (buildStops (of_nat n) rowSplits))
                (buildFractions (buildStops (of_nat m) colSplits)) = Some rs
             \<and> length rs = n * m \<and> exactPartition w h rs))
   \<and> (1 \<le> k \<and> k \<le> 8 \<and> length splits = k - 1 \<and> minGapOk (getMinGap (of_nat k)) splits
      \<and> 10 * (k + 1) \<le> len
      \<longrightarrow> (\<forall>f \<in> set (buildFractions (buildStops (of_nat k) splits)).
             (of_nat k + 1) / 2 \<le> f * of_nat len))
   \<and> performSlice 300 300 3 3 (buildFractions (buildStops 3 (buildEvenSplits 3)))
        (buildFractions (buildStops 3 (buildEvenSplits 3))) =
      Some [\<lparr>sliceRow = 0, sliceCol = 0, sliceX = 0, sliceY = 0, sliceW = 100, sliceH = 100\<rparr>,
            \<lparr>sliceRow = 0, sliceCol = 1, sliceX = 100, sliceY = 0, sliceW = 100, sliceH = 100\<rparr>,
            \<lparr>sliceRow = 0, sliceCol = 2, sliceX = 200, sliceY = 0, sliceW = 100, sliceH = 100\<rparr>,
            \<lparr>sliceRow = 1, sliceCol = 0, sliceX = 0, sliceY = 100, sliceW = 100, sliceH = 100\<rparr>,
            \<lparr>sliceRow = 1, sliceCol = 1, sliceX = 100, sliceY = 100, sliceW = 100, sliceH = 100\<rparr>,
            \<lparr>sliceRow = 1, sliceCol = 2, sliceX = 200, sliceY = 100, sliceW = 100, sliceH = 100\<rparr>,
            \<lparr>sliceRow = 2, sliceCol = 0, sliceX = 0, sliceY = 200, sliceW = 100, sliceH = 100\<rparr>,
            \<lparr>sliceRow = 2, sliceCol = 1, sliceX = 100, sliceY = 200, sliceW = 100, sliceH = 100\<rparr>,
            \<lparr>sliceRow = 2, sliceCol = 2, sliceX = 200, sliceY = 200, sliceW = 100, sliceH = 100\<rparr>]"
proof (intro conjI impI ballI)
  assume a: "1 \<le> n \<and> 1 \<le> m
    \<and> length rowSplits = n - 1 \<and> minGapOk (getMinGap (of_nat n)) rowSplits
    \<and> length colSplits = m - 1 \<and> minGapOk (getMinGap (of_nat m)) colSplits
    \<and> (\<forall>f \<in> set (buildFractions (buildStops (of_nat n) rowSplits)).
          (of_nat n + 1) / 2 \<le> f * of_nat h)
    \<and> (\<forall>f \<in> set (buildFractions (buildStops (of_nat m) colSplits)).
          (of_nat m + 1) / 2 \<le> f * of_nat w)"
  then have rows: "roomy n (map (\<lambda>f. f * of_nat h)
      (buildFractions (buildStops (of_nat n) rowSplits))) h"
    by (intro fractions_roomy) simp_all
  from a have cols: "roomy m (map (\<lambda>f. f * of_nat w)
      (buildFractions (buildStops (of_nat m) colSplits))) w"
    by (intro fractions_roomy) simp_all
  from roomy_partition [OF rows cols]
  show "\<exists>rs. performSlice w h n m (buildFractions (buildStops (of_nat n) rowSplits))
                (buildFractions (buildStops (of_nat m) colSplits)) = Some rs
             \<and> length rs = n * m \<and> exactPartition w h rs" .
next
  fix f
  assume "1 \<le> k \<and> k \<le> 8 \<and> length splits = k - 1 \<and> minGapOk (getMinGap (of_nat k)) splits
      \<and> 10 * (k + 1) \<le> len"
    and "f \<in> set (buildFractions (buildStops (of_nat k) splits))"
  then show "(of_nat k + 1) / 2 \<le> f * of_nat len"
    by (intro valid_splits_min_size) simp_all
qed (rule slice_300x300)

theorem slices_partition_image_witness:
  "minGapOk (getMinGap 2) [2 / 5] \<and> minGapOk (getMinGap 2) [1 / 2]
   \<and> buildFractions (buildStops 2 [2 / 5]) = [2 / 5, 3 / 5]
   \<and> ((2 :: rat) + 1) / 2 \<le> 2 / 5 * 30
   \<and> performSlice 30 30 2 2 (buildFractions (buildStops 2 [2 / 5]))
        (buildFractions (buildStops 2 [1 / 2])) =
      Some [\<lparr>sliceRow = 0, sliceCol = 0, sliceX = 0, sliceY = 0, sliceW = 15, sliceH = 12\<rparr>,
            \<lparr>sliceRow = 0, sliceCol = 1, sliceX = 15, sliceY = 0, sliceW = 15, sliceH = 12\<rparr>,
            \<lparr>sliceRow = 1, sliceCol = 0, sliceX = 0, sliceY = 12, sliceW = 15, sliceH = 18\<rparr>,
            \<lparr>sliceRow = 1, sliceCol = 1, sliceX = 15, sliceY = 12, sliceW = 15, sliceH = 18\<rparr>]
   \<and> exactPartition 30 30
        [\<lparr>sliceRow = 0, sliceCol = 0, sliceX = 0, sliceY = 0, sliceW = 15, sliceH = 12\<rparr>,
         \<lparr>sliceRow = 0, sliceCol = 1, sliceX = 15, sliceY = 0, sliceW = 15, sliceH = 12\<rparr>,
         \<lparr>sliceRow = 1, sliceCol = 0, sliceX = 0, sliceY = 12, sliceW = 15, sliceH = 18\<rparr>,
         \<lparr>sliceRow = 1, sliceCol = 1, sliceX = 15, sliceY = 12, sliceW = 15, sliceH = 18\<rparr>]"
proof -
  have gaps: "minGapOk (getMinGap 2) [2 / 5]" "minGapOk (getMinGap 2) [1 / 2]"
    by (simp_all add: minGapOk_def getMinGap_def)
  with conjunct1 [OF slices_partition_image [of 2 2 "[2 / 5]" "[1 / 2]" 30 30]]
  have "\<exists>rs. performSlice 30 30 2 2 (buildFractions (buildStops 2 [2 / 5]))
                (buildFractions (buildStops 2 [1 / 2])) = Some rs
             \<and> length rs = 2 * 2 \<and> exactPartition 30 30 rs"
    by (simp add: fractions_2x2_example)
  with gaps show ?thesis unfolding slice_30x30_2x2 by (simp add: fractions_2x2_example)
qed

text \<open>
  C2 fails as stated for small images: a 1 by 1 image with 3 even rows and 1 column gives
  three rectangles, each the single pixel of the image, which therefore lies in three
  rectangles.
\<close>

theorem slices_partition_counterexample:
  "performSlice 1 1 3 1 (buildFractions (buildStops 3 (buildEvenSplits 3)))
     (buildFractions (buildStops 1 (buildEvenSplits 1))) =
   Some [\<lparr>sliceRow = 0, sliceCol = 0, sliceX = 0, sliceY = 0, sliceW = 1, sliceH = 1\<rparr>,
         \<lparr>sliceRow = 1, sliceCol = 0, sliceX = 0, sliceY = 0, sliceW = 1, sliceH = 1\<rparr>,
         \<lparr>sliceRow = 2, sliceCol = 0, sliceX = 0, sliceY = 0, sliceW = 1, sliceH = 1\<rparr>]
   \<and> coverCount
        [\<lparr>sliceRow = 0, sliceCol = 0, sliceX = 0, sliceY = 0, sliceW = 1, sliceH = 1\<rparr>,
         \<lparr>sliceRow = 1, sliceCol = 0, sliceX = 0, sliceY = 0, sliceW = 1, sliceH = 1\<rparr>,
         \<lparr>sliceRow = 2, sliceCol = 0, sliceX = 0, sliceY = 0, sliceW = 1, sliceH = 1\<rparr>] 0 0 = 3
   \<and> \<not> exactPartition 1 1
        [\<lparr>sliceRow = 0, sliceCol = 0, sliceX = 0, sliceY = 0, sliceW = 1, sliceH = 1\<rparr>,
         \<lparr>sliceRow = 1, sliceCol = 0, sliceX = 0, sliceY = 0, sliceW = 1, sliceH = 1\<rparr>,
         \<lparr>sliceRow = 2, sliceCol = 0, sliceX = 0, sliceY = 0, sliceW = 1, sliceH = 1\<rparr>]"
proof -
  have c: "coverCount
        [\<lparr>sliceRow = 0, sliceCol = 0, sliceX = 0, sliceY = 0, sliceW = 1, sliceH = 1\<rparr>,
         \<lparr>sliceRow = 1, sliceCol = 0, sliceX = 0, sliceY = 0, sliceW = 1, sliceH = 1\<rparr>,
         \<lparr>sliceRow = 2, sliceCol = 0, sliceX = 0, sliceY = 0, sliceW = 1, sliceH = 1\<rparr>] 0 0 = 3"
    by (simp add: coverCount_def covers_def)
  then have "\<not> exactPartition 1 1
        [\<lparr>sliceRow = 0, sliceCol = 0, sliceX = 0, sliceY = 0, sliceW = 1, sliceH = 1\<rparr>,
         \<lparr>sliceRow = 1, sliceCol = 0, sliceX = 0, sliceY = 0, sliceW = 1, sliceH = 1\<rparr>,
         \<lparr>sliceRow = 2, sliceCol = 0, sliceX = 0, sliceY = 0, sliceW = 1, sliceH = 1\<rparr>]"
    unfolding exactPartition_def by (auto intro!: bexI [of _ 0])
  with c slice_1x1_rows3 show ?thesis by blast
qed

section \<open>The archive, byte for byte\<close>

lemma list_update_Cons_numeral:
  "(x # xs)[numeral k := y] = x # xs[pred_numeral k := y]"
  by (simp add: numeral_eq_Suc)

lemma replicate_Cons_numeral: "replicate (numeral k) x = x # replicate (pred_numeral k) x"
  by (simp add: numeral_eq_Suc)

lemmas buffer_simps = writes_def setUint16_def setUint32_def u16le_def u32le_def
  list_update_Cons_numeral replicate_Cons_numeral

lemma endRecord_bytes:
  "endRecord n cs off =
     u32le 0x06054b50 @ u16le 0 @ u16le 0 @ u16le n @ u16le n @ u32le cs @ u32le off @ u16le 0"
  by (simp add: endRecord_def buffer_simps)

lemma localHeader_bytes:
  "localHeader now crc sz nameLength =
     u32le 0x04034b50 @ u16le 20 @ u16le 0 @ u16le 0 @ u16le (unat (dosTime now))
     @ u16le (unat (dosDate now)) @ u32le (unat crc) @ u32le sz @ u32le sz
     @ u16le nameLength @ u16le 0"
  by (simp add: localHeader_def buffer_simps)

lemma centralHeader_bytes:
  "centralHeader now crc sz nameLength off =
     u32le 0x02014b50 @ u16le 20 @ u16le 20 @ u16le 0 @ u16le 0 @ u16le (unat (dosTime now))
     @ u16le (unat (dosDate now)) @ u32le (unat crc) @ u32le sz @ u32le sz
     @ u16le nameLength @ u16le 0 @ u16le 0 @ u16le 0 @ u16le 0 @ u32le 0 @ u32le off"
  by (simp add: centralHeader_def buffer_simps)

lemma u16le_length [simp]: "length (u16le v) = 2"
  by (simp add: u16le_def)

lemma u32le_length [simp]: "length (u32le v) = 4"
  by (simp add: u32le_def)

lemma localHeader_length [simp]: "length (localHeader now crc sz nameLength) = 30"
  by (simp add: localHeader_bytes)

lemma centralHeader_length [simp]: "length (centralHeader now crc sz nameLength off) = 46"
  by (simp add: centralHeader_bytes)

lemma endRecord_length [simp]: "length (endRecord n cs off) = 22"
  by (simp add: endRecord_bytes)

lemma leNat_u16le: "leNat (u16le v) = v mod 2 ^ 16"
proof -
  have "v mod 65536 = v mod 256 + 256 * (v div 256 mod 256)"
    using mod_mult2_eq [of v 256 256] by simp
  then show ?thesis by (simp add: u16le_def unat_of_nat)
qed

lemma leNat_u32le: "leNat (u32le v) = v mod 2 ^ 32"
proof -
  have a: "v mod 4294967296 = v mod 256 + 256 * (v div 256 mod 16777216)"
    using mod_mult2_eq [of v 256 16777216] by simp
  have b: "v div 256 mod 16777216 = v div 256 mod 256 + 256 * (v div 65536 mod 65536)"
    using mod_mult2_eq [of "v div 256" 256 65536] div_mult2_eq [of v 256 256] by simp
  have c: "v div 65536 mod 65536 = v div 65536 mod 256 + 256 * (v div 16777216 mod 256)"
    using mod_mult2_eq [of "v div 65536" 256 256] div_mult2_eq [of v 65536 256] by simp
  show ?thesis by (simp add: u32le_def unat_of_nat a b c)
qed

lemma crc32_cacheOk:
  "cacheOk cache \<Longrightarrow> crc32 buf cache = (crcOf buf, Some (fst (getCrcTable None)))"
proof -
  assume "cacheOk cache"
  then consider "cache = None" | "cache = Some (map crcEntry [0..<256])"
    by (auto simp: cacheOk_def getCrcTable_None simp del: upt_Suc)
  then show ?thesis
  proof cases
    case 1
    then show ?thesis
      by (simp add: crcOf_def crc32_def getCrcTable_None del: upt_Suc)
  next
    case 2
    then show ?thesis
      by (simp add: crc32_cached crcOf_def) (simp add: crc32_def getCrcTable_None del: upt_Suc)
  qed
qed

lemma cacheOk_table: "cacheOk (Some (fst (getCrcTable None)))"
  by (simp add: cacheOk_def)

lemma offsetsFrom_length [simp]: "length (offsetsFrom off files) = length files"
  by (induction files arbitrary: off) simp_all

lemma offsetsFrom_nth:
  "i < length files \<Longrightarrow> offsetsFrom off files ! i = off + localOffset files i"
proof (induction files arbitrary: off i)
  case Nil
  then show ?case by simp
next
  case (Cons f fs)
  show ?case
  proof (cases i)
    case 0
    then show ?thesis by (simp add: localOffset_def)
  next
    case (Suc j)
    with Cons.prems have "j < length fs" by simp
    from Cons.IH [OF this, of "off + entrySize f"] Suc show ?thesis
      by (simp add: localOffset_def)
  qed
qed

lemma zipEntry_step:
  assumes "cacheOk (crcTable st)"
  shows "zipEntry now file st =
     \<lparr>parts = parts st
        @ [localHeader now (crcOf (data file)) (length (data file)) (length (name file)),
           map of_char (name file), data file],
      centralParts = centralParts st
        @ [centralHeader now (crcOf (data file)) (length (data file)) (length (name file))
             (offset st),
           map of_char (name file)],
      offset = offset st + entrySize file,
      crcTable = Some (fst (getCrcTable None))\<rparr>"
  by (simp add: zipEntry_def crc32_cacheOk [OF assms] entrySize_def Let_def)

lemma zip_fold:
  "cacheOk (crcTable st) \<Longrightarrow>
   concat (parts (fold (zipEntry now) files st))
     = concat (parts st) @ concat (map (localEntry now) files)
   \<and> concat (centralParts (fold (zipEntry now) files st))
     = concat (centralParts st)
       @ concat (map2 (centralRecord now) files (offsetsFrom (offset st) files))
   \<and> offset (fold (zipEntry now) files st) = offset st + sum_list (map entrySize files)
   \<and> cacheOk (crcTable (fold (zipEntry now) files st))
   \<and> length (parts (fold (zipEntry now) files st)) = length (parts st) + 3 * length files
   \<and> length (centralParts (fold (zipEntry now) files st))
       = length (centralParts st) + 2 * length files"
proof (induction files arbitrary: st)
  case Nil
  then show ?case by simp
next
  case (Cons f fs)
  have ok: "cacheOk (crcTable (zipEntry now f st))"
    by (simp add: zipEntry_step [OF Cons.prems] cacheOk_table)
  from Cons.IH [OF ok] show ?case
    by (simp add: zipEntry_step [OF Cons.prems] localEntry_def centralRecord_def)
qed

lemma central_size:
  "foldl (\<lambda>sum part. sum + length part) k ps = k + length (concat ps)"
  by (induction ps arbitrary: k) simp_all

lemma buildZipBlob_layout:
  assumes "cacheOk cache"
  shows "fst (buildZipBlob files clock cache) =
           concat (map (localEntry (toDosDate clock)) files)
           @ concat (map2 (centralRecord (toDosDate clock)) files (offsetsFrom 0 files))
           @ endRecord (length files)
               (length (concat (map2 (centralRecord (toDosDate clock)) files
                  (offsetsFrom 0 files))))
               (sum_list (map entrySize files))"
    and "cacheOk (snd (buildZipBlob files clock cache))"
  using zip_fold [of "\<lparr>parts = [], centralParts = [], offset = 0, crcTable = cache\<rparr>"
      "toDosDate clock" files] assms
  by (simp_all add: buildZipBlob_def zipEntries_def Let_def central_size)

lemma localEntry_length [simp]: "length (localEntry now file) = entrySize file"
  by (simp add: localEntry_def entrySize_def)

lemma centralRecord_length [simp]:
  "length (centralRecord now file off) = 46 + length (name file)"
  by (simp add: centralRecord_def)

lemma local_region_length:
  "length (concat (map (localEntry now) files)) = sum_list (map entrySize files)"
  by (induction files) simp_all

lemma central_region_length:
  "length xs = length files \<Longrightarrow>
   length (concat (map2 (centralRecord now) files xs))
     = sum_list (map (\<lambda>file. 46 + length (name file)) files)"
proof (induction files arbitrary: xs)
  case Nil
  then show ?case by simp
next
  case (Cons f fs)
  then obtain y ys where "xs = y # ys" "length ys = length fs" by (cases xs) auto
  with Cons.IH [of ys] show ?case by simp
qed

lemma drop_local_region:
  "i < length files \<Longrightarrow>
   drop (localOffset files i) (concat (map (localEntry now) files) @ rest)
     = localEntry now (files ! i) @ concat (map (localEntry now) (drop (Suc i) files)) @ rest"
proof -
  assume i: "i < length files"
  have split: "files = take i files @ files ! i # drop (Suc i) files"
    using i by (rule id_take_nth_drop)
  have "concat (map (localEntry now) files)
      = concat (map (localEntry now) (take i files))
        @ localEntry now (files ! i) @ concat (map (localEntry now) (drop (Suc i) files))"
    by (subst split) simp
  moreover have "length (concat (map (localEntry now) (take i files))) = localOffset files i"
    by (simp add: local_region_length localOffset_def)
  ultimately show ?thesis by simp
qed

lemma drop_central_region:
  assumes i: "i < length files" and len: "length xs = length files"
  shows "drop (sum_list (map (\<lambda>file. 46 + length (name file)) (take i files)))
           (concat (map2 (centralRecord now) files xs) @ rest)
     = centralRecord now (files ! i) (xs ! i)
       @ concat (map2 (centralRecord now) (drop (Suc i) files) (drop (Suc i) xs)) @ rest"
proof -
  have "i < length (zip files xs)" using i len by simp
  then have "zip files xs
      = take i (zip files xs) @ zip files xs ! i # drop (Suc i) (zip files xs)"
    by (rule id_take_nth_drop)
  moreover have "zip files xs ! i = (files ! i, xs ! i)" using i len by simp
  ultimately have split: "zip files xs
      = zip (take i files) (take i xs) @ (files ! i, xs ! i)
        # zip (drop (Suc i) files) (drop (Suc i) xs)"
    by (simp only: take_zip drop_zip)
  have "concat (map2 (centralRecord now) files xs)
      = concat (map2 (centralRecord now) (take i files) (take i xs))
        @ centralRecord now (files ! i) (xs ! i)
        @ concat (map2 (centralRecord now) (drop (Suc i) files) (drop (Suc i) xs))"
    by (subst split) simp
  moreover have "length (concat (map2 (centralRecord now) (take i files) (take i xs)))
      = sum_list (map (\<lambda>file. 46 + length (name file)) (take i files))"
    using len by (intro central_region_length) simp
  ultimately show ?thesis by simp
qed

lemma centralHeader_offset_bytes:
  "take 4 (drop 42 (centralHeader now crc sz nameLength off @ rest)) = u32le off"
  by (simp add: centralHeader_bytes)

lemma central_record_in_blob:
  assumes "cacheOk cache" "i < length files"
  shows "\<exists>rest. drop (centralPos files i) (fst (buildZipBlob files clock cache))
     = centralHeader (toDosDate clock) (crcOf (data (files ! i))) (length (data (files ! i)))
         (length (name (files ! i))) (localOffset files i) @ rest"
proof -
  let ?now = "toDosDate clock"
  let ?E = "endRecord (length files)
               (length (concat (map2 (centralRecord ?now) files (offsetsFrom 0 files))))
               (sum_list (map entrySize files))"
  have "drop (centralPos files i) (fst (buildZipBlob files clock cache))
      = drop (sum_list (map (\<lambda>file. 46 + length (name file)) (take i files)))
          (concat (map2 (centralRecord ?now) files (offsetsFrom 0 files)) @ ?E)"
    by (simp add: buildZipBlob_layout(1) [OF assms(1)] centralPos_def local_region_length)
  also have "\<dots> = centralRecord ?now (files ! i) (offsetsFrom 0 files ! i)
       @ concat (map2 (centralRecord ?now) (drop (Suc i) files)
           (drop (Suc i) (offsetsFrom 0 files))) @ ?E"
    using assms(2) by (intro drop_central_region) simp_all
  finally show ?thesis
    by (simp add: centralRecord_def offsetsFrom_nth [OF assms(2)])
qed

lemma centralOffsetField_eq:
  assumes "cacheOk cache" "i < length files"
  shows "take 4 (drop (centralPos files i + 42) (fst (buildZipBlob files clock cache)))
           = u32le (localOffset files i)"
proof -
  from central_record_in_blob [OF assms, of clock] obtain rest where
    r: "drop (centralPos files i) (fst (buildZipBlob files clock cache))
     = centralHeader (toDosDate clock) (crcOf (data (files ! i))) (length (data (files ! i)))
         (length (name (files ! i))) (localOffset files i) @ rest" by blast
  have "drop (centralPos files i + 42) (fst (buildZipBlob files clock cache))
      = drop 42 (drop (centralPos files i) (fst (buildZipBlob files clock cache)))"
    by (simp add: add.commute)
  then show ?thesis
    by (simp only: r centralHeader_offset_bytes)
qed

lemma local_header_in_blob:
  assumes "cacheOk cache" "i < length files"
  shows "take 30 (drop (localOffset files i) (fst (buildZipBlob files clock cache)))
     = localHeader (toDosDate clock) (crcOf (data (files ! i))) (length (data (files ! i)))
         (length (name (files ! i)))"
  by (simp only: buildZipBlob_layout(1) [OF assms(1)] drop_local_region [OF assms(2)])
     (simp add: localEntry_def)

lemma localOffset_Suc:
  "i < length files \<Longrightarrow>
   localOffset files (Suc i)
     = localOffset files i + 30 + length (name (files ! i)) + length (data (files ! i))"
  by (simp add: localOffset_def take_Suc_conv_app_nth entrySize_def)

lemma centralOffsetField_mod:
  "cacheOk cache \<Longrightarrow> i < length files \<Longrightarrow>
   centralOffsetField (fst (buildZipBlob files clock cache)) files i
     = localOffset files i mod 2 ^ 32"
  by (simp only: centralOffsetField_def centralOffsetField_eq leNat_u32le)

lemma endRecord_in_blob:
  assumes "cacheOk cache"
  shows "drop (length (fst (buildZipBlob files clock cache)) - 22 + pos)
           (fst (buildZipBlob files clock cache))
         = drop pos (endRecord (length files)
             (sum_list (map (\<lambda>file. 46 + length (name file)) files))
             (sum_list (map entrySize files)))"
proof -
  let ?now = "toDosDate clock"
  let ?P = "concat (map (localEntry ?now) files)
            @ concat (map2 (centralRecord ?now) files (offsetsFrom 0 files))"
  let ?E = "endRecord (length files)
             (sum_list (map (\<lambda>file. 46 + length (name file)) files))
             (sum_list (map entrySize files))"
  have B: "fst (buildZipBlob files clock cache) = ?P @ ?E"
    by (simp add: buildZipBlob_layout(1) [OF assms] central_region_length)
  have "length (?P @ ?E) - 22 + pos = length ?P + pos" by simp
  then have "drop (length (?P @ ?E) - 22 + pos) (?P @ ?E) = drop pos ?E"
    by (simp only: drop_append) simp
  then show ?thesis by (simp only: B)
qed

lemma eocd_fields:
  assumes "cacheOk cache"
  shows "eocdField (fst (buildZipBlob files clock cache)) 0 4 = 0x06054b50"
    and "eocdField (fst (buildZipBlob files clock cache)) 4 2 = 0"
    and "eocdField (fst (buildZipBlob files clock cache)) 6 2 = 0"
    and "eocdField (fst (buildZipBlob files clock cache)) 8 2 = length files mod 2 ^ 16"
    and "eocdField (fst (buildZipBlob files clock cache)) 10 2 = length files mod 2 ^ 16"
    and "eocdField (fst (buildZipBlob files clock cache)) 12 4
           = sum_list (map (\<lambda>file. 46 + length (name file)) files) mod 2 ^ 32"
    and "eocdField (fst (buildZipBlob files clock cache)) 16 4
           = sum_list (map entrySize files) mod 2 ^ 32"
    and "eocdField (fst (buildZipBlob files clock cache)) 20 2 = 0"
proof -
  have f16: "take 2 (drop pos (pre @ u16le v @ post)) = u16le v" if "length pre = pos"
    for pos pre v post using that by simp
  have f32: "take 4 (drop pos (pre @ u32le v @ post)) = u32le v" if "length pre = pos"
    for pos pre v post using that by simp
  note E = endRecord_in_blob [OF assms] endRecord_bytes
  show "eocdField (fst (buildZipBlob files clock cache)) 0 4 = 0x06054b50"
    unfolding eocdField_def E using f32 [of "[]" 0] leNat_u32le [of "0x06054b50"] by simp
  show "eocdField (fst (buildZipBlob files clock cache)) 4 2 = 0"
    unfolding eocdField_def E by (simp add: leNat_u16le)
  show "eocdField (fst (buildZipBlob files clock cache)) 6 2 = 0"
    unfolding eocdField_def E by (simp add: leNat_u16le)
  show "eocdField (fst (buildZipBlob files clock cache)) 8 2 = length files mod 2 ^ 16"
    unfolding eocdField_def E by (simp add: leNat_u16le)
  show "eocdField (fst (buildZipBlob files clock cache)) 10 2 = length files mod 2 ^ 16"
    unfolding eocdField_def E by (simp add: leNat_u16le)
  show "eocdField (fst (buildZipBlob files clock cache)) 12 4
           = sum_list (map (\<lambda>file. 46 + length (name file)) files) mod 2 ^ 32"
    unfolding eocdField_def E by (simp add: leNat_u32le)
  show "eocdField (fst (buildZipBlob files clock cache)) 16 4
           = sum_list (map entrySize files) mod 2 ^ 32"
    unfolding eocdField_def E by (simp add: leNat_u32le)
  show "eocdField (fst (buildZipBlob files clock cache)) 20 2 = 0"
    unfolding eocdField_def E by (simp add: leNat_u16le)
qed

text \<open>
  C3 (as the code has it). For every entry list and every entry \<open>i\<close> of it, the running
  offset \<open>localOffset files i\<close>, which starts at 0 and grows by
  \<open>30 + nameLength + contentLength\<close> with each entry (an empty entry adds its header and
  name), is the byte of the archive at which the local header of entry \<open>i\<close> begins; the
  central header of entry \<open>i\<close> is built with this offset, and its local-header-offset
  field, 4 bytes written by \<^verbatim>\<open>setUint32\<close>, holds it modulo \<open>2^32\<close>: the offset itself
  whenever it is below \<open>2^32\<close>. For three entries \<open>f1, f2, f3\<close> the offsets are 0,
  \<open>size1 + 30 + len(name1)\<close> and that plus \<open>size2 + 30 + len(name2)\<close>.
\<close>

theorem central_offsets_are_running_offsets:
  "(cacheOk cache \<and> i < length files \<longrightarrow>
      take 4 (drop (centralPos files i + 42) (fst (buildZipBlob files clock cache)))
        = u32le (localOffset files i)
      \<and> centralOffsetField (fst (buildZipBlob files clock cache)) files i
          = localOffset files i mod 2 ^ 32
      \<and> (localOffset files i < 2 ^ 32 \<longrightarrow>
           centralOffsetField (fst (buildZipBlob files clock cache)) files i
             = localOffset files i)
      \<and> take 30 (drop (localOffset files i) (fst (buildZipBlob files clock cache)))
          = localHeader (toDosDate clock) (crcOf (data (files ! i)))
              (length (data (files ! i))) (length (name (files ! i)))
      \<and> (\<exists>rest. drop (centralPos files i) (fst (buildZipBlob files clock cache))
            = centralHeader (toDosDate clock) (crcOf (data (files ! i)))
                (length (data (files ! i))) (length (name (files ! i)))
                (localOffset files i) @ rest)
      \<and> localOffset files (Suc i)
          = localOffset files i + 30 + length (name (files ! i)) + length (data (files ! i)))
   \<and> localOffset files 0 = 0
   \<and> localOffset [f1, f2, f3] 1 = length (data f1) + 30 + length (name f1)
   \<and> localOffset [f1, f2, f3] 2
       = localOffset [f1, f2, f3] 1 + length (data f2) + 30 + length (name f2)"
proof (intro conjI impI)
  assume a: "cacheOk cache \<and> i < length files"
  then have c: "cacheOk cache" and i: "i < length files" by simp_all
  show "take 4 (drop (centralPos files i + 42) (fst (buildZipBlob files clock cache)))
        = u32le (localOffset files i)"
    by (rule centralOffsetField_eq [OF c i])
  show "centralOffsetField (fst (buildZipBlob files clock cache)) files i
          = localOffset files i mod 2 ^ 32"
    by (rule centralOffsetField_mod [OF c i])
  show "take 30 (drop (localOffset files i) (fst (buildZipBlob files clock cache)))
          = localHeader (toDosDate clock) (crcOf (data (files ! i)))
              (length (data (files ! i))) (length (name (files ! i)))"
    by (rule local_header_in_blob [OF c i])
  show "\<exists>rest. drop (centralPos files i) (fst (buildZipBlob files clock cache))
            = centralHeader (toDosDate clock) (crcOf (data (files ! i)))
                (length (data (files ! i))) (length (name (files ! i)))
                (localOffset files i) @ rest"
    by (rule central_record_in_blob [OF c i])
  show "localOffset files (Suc i)
          = localOffset files i + 30 + length (name (files ! i)) + length (data (files ! i))"
    by (rule localOffset_Suc [OF i])
  assume "localOffset files i < 2 ^ 32"
  then show "centralOffsetField (fst (buildZipBlob files clock cache)) files i
             = localOffset files i"
    by (simp add: centralOffsetField_mod [OF c i])
next
  show "localOffset files 0 = 0" by (simp add: localOffset_def)
  show "localOffset [f1, f2, f3] 1 = length (data f1) + 30 + length (name f1)"
    by (simp add: localOffset_def entrySize_def)
  show "localOffset [f1, f2, f3] 2
       = localOffset [f1, f2, f3] 1 + length (data f2) + 30 + length (name f2)"
    by (simp add: localOffset_def entrySize_def)
qed

theorem central_offsets_are_running_offsets_witness:
  "cacheOk None
   \<and> (2 :: nat) < length [\<lparr>name = ''1.png'', data = replicate 10 0\<rparr>,
                          \<lparr>name = ''2.png'', data = []\<rparr>,
                          \<lparr>name = ''3.png'', data = replicate 25 0\<rparr>]
   \<and> localOffset [\<lparr>name = ''1.png'', data = replicate 10 0\<rparr>,
                   \<lparr>name = ''2.png'', data = []\<rparr>,
                   \<lparr>name = ''3.png'', data = replicate 25 0\<rparr>] 2 = 80
   \<and> centralOffsetField
        (fst (buildZipBlob [\<lparr>name = ''1.png'', data = replicate 10 0\<rparr>,
                            \<lparr>name = ''2.png'', data = []\<rparr>,
                            \<lparr>name = ''3.png'', data = replicate 25 0\<rparr>]
               \<lparr>getFullYear = 2024, getMonth = 0, getDate = 1, getHours = 0, getMinutes = 0,
                getSeconds = 0\<rparr> None))
        [\<lparr>name = ''1.png'', data = replicate 10 0\<rparr>,
         \<lparr>name = ''2.png'', data = []\<rparr>,
         \<lparr>name = ''3.png'', data = replicate 25 0\<rparr>] 2 = 80"
proof -
  have ok: "cacheOk None" by (simp add: cacheOk_def)
  have off: "localOffset [\<lparr>name = ''1.png'', data = replicate 10 0\<rparr>,
                   \<lparr>name = ''2.png'', data = []\<rparr>,
                   \<lparr>name = ''3.png'', data = replicate 25 0\<rparr>] 2 = 80"
    by (simp add: localOffset_def entrySize_def)
  from central_offsets_are_running_offsets [of None 2
      "[\<lparr>name = ''1.png'', data = replicate 10 0\<rparr>,
        \<lparr>name = ''2.png'', data = []\<rparr>,
        \<lparr>name = ''3.png'', data = replicate 25 0\<rparr>]"
      "\<lparr>getFullYear = 2024, getMonth = 0, getDate = 1, getHours = 0, getMinutes = 0,
        getSeconds = 0\<rparr>"] ok off
  show ?thesis by simp
qed

text \<open>
  C3 fails as stated once the local region reaches 4 GiB: after two entries of \<open>2^31\<close>
  bytes the running offset is 4294967358, and the field of the third entry holds 62.
\<close>

theorem central_offset_wraps_counterexample:
  "localOffset [\<lparr>name = ''a'', data = replicate (2 ^ 31) 0\<rparr>,
                \<lparr>name = ''b'', data = replicate (2 ^ 31) 0\<rparr>,
                \<lparr>name = ''c'', data = []\<rparr>] 2 = 4294967358
   \<and> centralOffsetField
        (fst (buildZipBlob [\<lparr>name = ''a'', data = replicate (2 ^ 31) 0\<rparr>,
                            \<lparr>name = ''b'', data = replicate (2 ^ 31) 0\<rparr>,
                            \<lparr>name = ''c'', data = []\<rparr>]
               \<lparr>getFullYear = 2024, getMonth = 0, getDate = 1, getHours = 0, getMinutes = 0,
                getSeconds = 0\<rparr> None))
        [\<lparr>name = ''a'', data = replicate (2 ^ 31) 0\<rparr>,
         \<lparr>name = ''b'', data = replicate (2 ^ 31) 0\<rparr>,
         \<lparr>name = ''c'', data = []\<rparr>] 2 = 62"
proof -
  have ok: "cacheOk None" by (simp add: cacheOk_def)
  have off: "localOffset [\<lparr>name = ''a'', data = replicate (2 ^ 31) 0\<rparr>,
                \<lparr>name = ''b'', data = replicate (2 ^ 31) 0\<rparr>,
                \<lparr>name = ''c'', data = []\<rparr>] 2 = 4294967358"
    by (simp add: localOffset_def entrySize_def)
  have "(2 :: nat) < length [\<lparr>name = ''a'', data = replicate (2 ^ 31) 0\<rparr>,
                \<lparr>name = ''b'', data = replicate (2 ^ 31) 0\<rparr>,
                \<lparr>name = ''c'', data = []\<rparr>]" by simp
  from centralOffsetField_mod [OF ok this] off show ?thesis by simp
qed

text \<open>
  C7 (as the code has it). The blob is the local entries in input order, then the central
  directory records in the same order, then the 22-byte end record. The end record is the
  signature \<open>0x06054b50\<close>, two zero disk numbers, the number of entries twice, the byte
  size of the central directory region, the offset at which that region starts (the size
  of the local region, the running offset after all entries), and a zero comment length;
  the two counts are 16-bit fields and hold the number modulo \<open>2^16\<close>, the size and the
  offset are 32-bit fields and hold their numbers modulo \<open>2^32\<close>.
\<close>

theorem zip_blob_layout:
  "(cacheOk cache \<longrightarrow>
      fst (buildZipBlob files clock cache)
        = concat (map (localEntry (toDosDate clock)) files)
          @ concat (map2 (centralRecord (toDosDate clock)) files (offsetsFrom 0 files))
          @ endRecord (length files)
              (sum_list (map (\<lambda>file. 46 + length (name file)) files))
              (sum_list (map entrySize files))
      \<and> length (concat (map (localEntry (toDosDate clock)) files))
          = sum_list (map entrySize files)
      \<and> length (concat (map2 (centralRecord (toDosDate clock)) files (offsetsFrom 0 files)))
          = sum_list (map (\<lambda>file. 46 + length (name file)) files)
      \<and> eocdField (fst (buildZipBlob files clock cache)) 0 4 = 0x06054b50
      \<and> eocdField (fst (buildZipBlob files clock cache)) 4 2 = 0
      \<and> eocdField (fst (buildZipBlob files clock cache)) 6 2 = 0
      \<and> eocdField (fst (buildZipBlob files clock cache)) 8 2 = length files mod 2 ^ 16
      \<and> eocdField (fst (buildZipBlob files clock cache)) 10 2 = length files mod 2 ^ 16
      \<and> eocdField (fst (buildZipBlob files clock cache)) 12 4
          = sum_list (map (\<lambda>file. 46 + length (name file)) files) mod 2 ^ 32
      \<and> eocdField (fst (buildZipBlob files clock cache)) 16 4
          = sum_list (map entrySize files) mod 2 ^ 32
      \<and> eocdField (fst (buildZipBlob files clock cache)) 20 2 = 0)
   \<and> localEntry now file
       = localHeader now (crcOf (data file)) (length (data file)) (length (name file))
         @ map of_char (name file) @ data file
   \<and> centralRecord now file off
       = centralHeader now (crcOf (data file)) (length (data file)) (length (name file)) off
         @ map of_char (name file)
   \<and> endRecord n cs off
       = u32le 0x06054b50 @ u16le 0 @ u16le 0 @ u16le n @ u16le n @ u32le cs @ u32le off
         @ u16le 0
   \<and> length (endRecord n cs off) = 22"
proof (intro conjI impI)
  assume c: "cacheOk cache"
  show "fst (buildZipBlob files clock cache)
        = concat (map (localEntry (toDosDate clock)) files)
          @ concat (map2 (centralRecord (toDosDate clock)) files (offsetsFrom 0 files))
          @ endRecord (length files)
              (sum_list (map (\<lambda>file. 46 + length (name file)) files))
              (sum_list (map entrySize files))"
    by (simp add: buildZipBlob_layout(1) [OF c] central_region_length)
  show "eocdField (fst (buildZipBlob files clock cache)) 0 4 = 0x06054b50"
    by (rule eocd_fields(1) [OF c])
  show "eocdField (fst (buildZipBlob files clock cache)) 4 2 = 0"
    by (rule eocd_fields(2) [OF c])
  show "eocdField (fst (buildZipBlob files clock cache)) 6 2 = 0"
    by (rule eocd_fields(3) [OF c])
  show "eocdField (fst (buildZipBlob files clock cache)) 8 2 = length files mod 2 ^ 16"
    by (rule eocd_fields(4) [OF c])
  show "eocdField (fst (buildZipBlob files clock cache)) 10 2 = length files mod 2 ^ 16"
    by (rule eocd_fields(5) [OF c])
  show "eocdField (fst (buildZipBlob files clock cache)) 12 4
          = sum_list (map (\<lambda>file. 46 + length (name file)) files) mod 2 ^ 32"
    by (rule eocd_fields(6) [OF c])
  show "eocdField (fst (buildZipBlob files clock cache)) 16 4
          = sum_list (map entrySize files) mod 2 ^ 32"
    by (rule eocd_fields(7) [OF c])
  show "eocdField (fst (buildZipBlob files clock cache)) 20 2 = 0"
    by (rule eocd_fields(8) [OF c])
next
  show "length (concat (map (localEntry (toDosDate clock)) files))
          = sum_list (map entrySize files)"
    by (rule local_region_length)
  show "length (concat (map2 (centralRecord (toDosDate clock)) files (offsetsFrom 0 files)))
          = sum_list (map (\<lambda>file. 46 + length (name file)) files)"
    by (rule central_region_length) simp
  show "localEntry now file
       = localHeader now (crcOf (data file)) (length (data file)) (length (name file))
         @ map of_char (name file) @ data file"
    by (simp add: localEntry_def)
  show "centralRecord now file off
       = centralHeader now (crcOf (data file)) (length (data file)) (length (name file)) off
         @ map of_char (name file)"
    by (simp add: centralRecord_def)
  show "endRecord n cs off
       = u32le 0x06054b50 @ u16le 0 @ u16le 0 @ u16le n @ u16le n @ u32le cs @ u32le off
         @ u16le 0"
    by (rule endRecord_bytes)
  show "length (endRecord n cs off) = 22" by simp
qed

theorem zip_blob_layout_witness:
  "cacheOk None
   \<and> fst (buildZipBlob [\<lparr>name = ''a.txt'', data = [104, 105]\<rparr>]
            \<lparr>getFullYear = 2024, getMonth = 0, getDate = 1, getHours = 0, getMinutes = 0,
             getSeconds = 0\<rparr> None)
       = localEntry (toDosDate \<lparr>getFullYear = 2024, getMonth = 0, getDate = 1, getHours = 0,
                                getMinutes = 0, getSeconds = 0\<rparr>)
           \<lparr>name = ''a.txt'', data = [104, 105]\<rparr>
         @ centralRecord (toDosDate \<lparr>getFullYear = 2024, getMonth = 0, getDate = 1,
                                     getHours = 0, getMinutes = 0, getSeconds = 0\<rparr>)
             \<lparr>name = ''a.txt'', data = [104, 105]\<rparr> 0
         @ endRecord 1 51 37
   \<and> eocdField (fst (buildZipBlob [\<lparr>name = ''a.txt'', data = [104, 105]\<rparr>]
            \<lparr>getFullYear = 2024, getMonth = 0, getDate = 1, getHours = 0, getMinutes = 0,
             getSeconds = 0\<rparr> None)) 8 2 = 1"
proof -
  have ok: "cacheOk None" by (simp add: cacheOk_def)
  note L = conjunct1 [OF zip_blob_layout
      [of None "[\<lparr>name = ''a.txt'', data = [104, 105]\<rparr>]"
        "\<lparr>getFullYear = 2024, getMonth = 0, getDate = 1, getHours = 0, getMinutes = 0,
          getSeconds = 0\<rparr>"], rule_format, OF ok]
  have A: "fst (buildZipBlob [\<lparr>name = ''a.txt'', data = [104, 105]\<rparr>]
            \<lparr>getFullYear = 2024, getMonth = 0, getDate = 1, getHours = 0, getMinutes = 0,
             getSeconds = 0\<rparr> None)
       = localEntry (toDosDate \<lparr>getFullYear = 2024, getMonth = 0, getDate = 1, getHours = 0,
                                getMinutes = 0, getSeconds = 0\<rparr>)
           \<lparr>name = ''a.txt'', data = [104, 105]\<rparr>
         @ centralRecord (toDosDate \<lparr>getFullYear = 2024, getMonth = 0, getDate = 1,
                                     getHours = 0, getMinutes = 0, getSeconds = 0\<rparr>)
             \<lparr>name = ''a.txt'', data = [104, 105]\<rparr> 0
         @ endRecord 1 51 37"
    using L [THEN conjunct1] by (simp add: entrySize_def)
  have B: "eocdField (fst (buildZipBlob [\<lparr>name = ''a.txt'', data = [104, 105]\<rparr>]
            \<lparr>getFullYear = 2024, getMonth = 0, getDate = 1, getHours = 0, getMinutes = 0,
             getSeconds = 0\<rparr> None)) 8 2 = 1"
    using L [THEN conjunct2, THEN conjunct2, THEN conjunct2, THEN conjunct2, THEN conjunct2,
        THEN conjunct2, THEN conjunct1] by simp
  show ?thesis by (rule conjI [OF ok conjI [OF A B]])
qed

text \<open>
  C7 fails as stated from 65536 entries on: with 65536 entries both count fields hold 0.
\<close>

theorem eocd_count_wraps_counterexample:
  "length (replicate 65536 \<lparr>name = ''x'', data = []\<rparr>) = 65536
   \<and> eocdField (fst (buildZipBlob (replicate 65536 \<lparr>name = ''x'', data = []\<rparr>)
            \<lparr>getFullYear = 2024, getMonth = 0, getDate = 1, getHours = 0, getMinutes = 0,
             getSeconds = 0\<rparr> None)) 8 2 = 0
   \<and> eocdField (fst (buildZipBlob (replicate 65536 \<lparr>name = ''x'', data = []\<rparr>)
            \<lparr>getFullYear = 2024, getMonth = 0, getDate = 1, getHours = 0, getMinutes = 0,
             getSeconds = 0\<rparr> None)) 10 2 = 0"
proof -
  have ok: "cacheOk None" by (simp add: cacheOk_def)
  from eocd_fields(4) [OF ok] eocd_fields(5) [OF ok] show ?thesis by simp
qed

text \<open>
  C9 (as the code has it). The blob is a function of the entry list and of the DOS
  timestamp of the clock reading (\<^verbatim>\<open>toDosDate(new Date())\<close>): two invocations on the
  same list whose clock readings have the same timestamp give the same bytes, whether the
  CRC table was cached before the call or not; and a call leaves the cache as \<^verbatim>\<open>null\<close>
  (no entry) or holding that table.
\<close>

theorem zip_blob_deterministic:
  "(cacheOk c1 \<and> cacheOk c2 \<and> toDosDate clock1 = toDosDate clock2 \<longrightarrow>
      fst (buildZipBlob files clock1 c1) = fst (buildZipBlob files clock2 c2))
   \<and> (cacheOk c \<longrightarrow> cacheOk (snd (buildZipBlob files clock c)))
   \<and> cacheOk None"
proof (intro conjI impI)
  assume "cacheOk c1 \<and> cacheOk c2 \<and> toDosDate clock1 = toDosDate clock2"
  then show "fst (buildZipBlob files clock1 c1) = fst (buildZipBlob files clock2 c2)"
    by (simp add: buildZipBlob_layout(1))
next
  assume "cacheOk c"
  then show "cacheOk (snd (buildZipBlob files clock c))" by (rule buildZipBlob_layout(2))
next
  show "cacheOk None" by (simp add: cacheOk_def)
qed

lemma toDosDate_even_second:
  "toDosDate \<lparr>getFullYear = 2024, getMonth = 0, getDate = 1, getHours = 0, getMinutes = 0,
               getSeconds = 1\<rparr>
   = toDosDate \<lparr>getFullYear = 2024, getMonth = 0, getDate = 1, getHours = 0, getMinutes = 0,
                 getSeconds = 0\<rparr>"
  by (simp add: toDosDate_def)

theorem zip_blob_deterministic_witness:
  "cacheOk None \<and> cacheOk (Some (fst (getCrcTable None)))
   \<and> toDosDate \<lparr>getFullYear = 2024, getMonth = 0, getDate = 1, getHours = 0, getMinutes = 0,
                  getSeconds = 1\<rparr>
       = toDosDate \<lparr>getFullYear = 2024, getMonth = 0, getDate = 1, getHours = 0,
                     getMinutes = 0, getSeconds = 0\<rparr>
   \<and> fst (buildZipBlob [\<lparr>name = ''a.txt'', data = [104, 105]\<rparr>]
            \<lparr>getFullYear = 2024, getMonth = 0, getDate = 1, getHours = 0, getMinutes = 0,
             getSeconds = 1\<rparr> None)
       = fst (buildZipBlob [\<lparr>name = ''a.txt'', data = [104, 105]\<rparr>]
            \<lparr>getFullYear = 2024, getMonth = 0, getDate = 1, getHours = 0, getMinutes = 0,
             getSeconds = 0\<rparr> (Some (fst (getCrcTable None))))"
proof -
  have ok: "cacheOk None" "cacheOk (Some (fst (getCrcTable None)))"
    by (simp_all add: cacheOk_def)
  from zip_blob_deterministic [of None "Some (fst (getCrcTable None))"
      "\<lparr>getFullYear = 2024, getMonth = 0, getDate = 1, getHours = 0, getMinutes = 0,
        getSeconds = 1\<rparr>"
      "\<lparr>getFullYear = 2024, getMonth = 0, getDate = 1, getHours = 0, getMinutes = 0,
        getSeconds = 0\<rparr>"
      "[\<lparr>name = ''a.txt'', data = [104, 105]\<rparr>]"] ok toDosDate_even_second
  show ?thesis by simp
qed

lemma blob_byte_10:
  assumes "cacheOk cache"
  shows "fst (buildZipBlob (f # fs) clock cache) ! 10
           = of_nat (unat (dosTime (toDosDate clock)))"
  by (simp add: buildZipBlob_layout(1) [OF assms] localEntry_def localHeader_bytes
      u32le_def u16le_def)

text \<open>
  C9 fails as stated: the same one-entry list zipped at 00:00:00 and at 00:00:02 gives
  blobs that differ in byte 10, the low byte of the local header's time field.
\<close>

theorem zip_blob_clock_counterexample:
  "fst (buildZipBlob [\<lparr>name = ''a.txt'', data = [104, 105]\<rparr>]
          \<lparr>getFullYear = 2024, getMonth = 0, getDate = 1, getHours = 0, getMinutes = 0,
           getSeconds = 0\<rparr> None) ! 10 = 0
   \<and> fst (buildZipBlob [\<lparr>name = ''a.txt'', data = [104, 105]\<rparr>]
          \<lparr>getFullYear = 2024, getMonth = 0, getDate = 1, getHours = 0, getMinutes = 0,
           getSeconds = 2\<rparr> None) ! 10 = 1
   \<and> fst (buildZipBlob [\<lparr>name = ''a.txt'', data = [104, 105]\<rparr>]
          \<lparr>getFullYear = 2024, getMonth = 0, getDate = 1, getHours = 0, getMinutes = 0,
           getSeconds = 0\<rparr> None)
       \<noteq> fst (buildZipBlob [\<lparr>name = ''a.txt'', data = [104, 105]\<rparr>]
          \<lparr>getFullYear = 2024, getMonth = 0, getDate = 1, getHours = 0, getMinutes = 0,
           getSeconds = 2\<rparr> None)"
proof -
  have ok: "cacheOk None" by (simp add: cacheOk_def)
  have a: "fst (buildZipBlob [\<lparr>name = ''a.txt'', data = [104, 105]\<rparr>]
          \<lparr>getFullYear = 2024, getMonth = 0, getDate = 1, getHours = 0, getMinutes = 0,
           getSeconds = 0\<rparr> None) ! 10 = 0"
    by (simp add: blob_byte_10 [OF ok] toDosDate_def)
  have b: "fst (buildZipBlob [\<lparr>name = ''a.txt'', data = [104, 105]\<rparr>]
          \<lparr>getFullYear = 2024, getMonth = 0, getDate = 1, getHours = 0, getMinutes = 0,
           getSeconds = 2\<rparr> None) ! 10 = 1"
    by (simp add: blob_byte_10 [OF ok] toDosDate_def)
  from a b show ?thesis by auto
qed

end
